theory Spec2Isabelle
  imports Complex_Main "HOL-Library.Multiset" "HOL-Library.Sublist"
begin

section \<open>Route optimizer (optimizer.py)\<close>

text \<open>
  Python floats are modelled by real numbers: the rounding of floating-point arithmetic is
  not part of the model. Exceptions are values of the type \<open>error\<close>; a function that can
  raise returns \<open>error + 'a\<close> with \<open>Inl\<close> for the exception.
\<close>

datatype error =
    ValueError string
  | KeyError
  | IndexError
  | LookupError string
  | PermissionError string
  | RuntimeError string

subsection \<open>Cost matrix conversion and validation\<close>

text \<open>
  A cell of the converted matrix is a finite number or \<open>+inf\<close>. The raw matrix is a list of
  rows whose cells are numbers or \<open>None\<close>.

  \<open>np.array(matrix, dtype=float)\<close> yields a one-dimensional array of shape \<open>(0,)\<close> for the
  empty list, a two-dimensional array of shape \<open>(rows, columns)\<close> for a non-empty list of
  rows of equal length, and raises \<open>ValueError\<close> for rows of different lengths.
\<close>

datatype float_cell = Num real | PosInf

datatype ndarray =
    Array1 "float_cell list"
  | Array2 nat nat "float_cell list list"

definition to_cost_matrix :: "real option list list \<Rightarrow> error + ndarray" where
  "to_cost_matrix matrix =
     (case matrix of
        [] \<Rightarrow> Inr (Array1 [])
      | row # rows \<Rightarrow>
          if list_all (\<lambda>r. length r = length row) rows
          then Inr (Array2 (length matrix) (length row)
                 (map (map (\<lambda>c. case c of None \<Rightarrow> PosInf | Some x \<Rightarrow> Num x)) matrix))
          else Inl (ValueError ''setting an array element with a sequence''))"

definition isinf :: "float_cell \<Rightarrow> bool" where
  "isinf c = (c = PosInf)"

fun validate_full_matrix :: "ndarray \<Rightarrow> error + unit" where
  "validate_full_matrix (Array1 xs) = Inl (ValueError ''Cost matrix must be NxN'')"
| "validate_full_matrix (Array2 r c rows) =
     (if r \<noteq> c then Inl (ValueError ''Cost matrix must be NxN'')
      else if r = 0 then Inr ()
      else if list_ex (list_ex isinf) rows
        then Inl (ValueError ''Cost matrix contains unreachable pairs (inf).'')
      else Inr ())"

text \<open>
  After validation every cell is finite; the path functions below read the matrix as rows of
  real numbers. \<open>finite_value\<close> has no equation for \<open>PosInf\<close>: no validated matrix holds it.
\<close>

fun finite_value :: "float_cell \<Rightarrow> real" where
  "finite_value (Num x) = x"

fun cost_values :: "ndarray \<Rightarrow> real list list" where
  "cost_values (Array1 xs) = []"
| "cost_values (Array2 r c rows) = map (map finite_value) rows"

type_synonym cost_matrix = "real list list"

subsection \<open>Path cost, minimum selection, central start\<close>

definition path_cost :: "cost_matrix \<Rightarrow> nat list \<Rightarrow> real" where
  "path_cost cost path =
     (if length path \<le> 1 then 0
      else fold (\<lambda>(a, b) total. total + cost ! a ! b) (zip path (tl path)) 0)"

text \<open>
  Python's \<open>min(iterable, key=f)\<close> keeps the first element whose key is strictly smaller
  than every key before it, and raises \<open>ValueError\<close> on an empty iterable.
\<close>

fun min_from :: "('a \<Rightarrow> real) \<Rightarrow> 'a \<Rightarrow> 'a list \<Rightarrow> 'a" where
  "min_from key best [] = best"
| "min_from key best (x # xs) = min_from key (if key x < key best then x else best) xs"

definition py_min :: "('a \<Rightarrow> real) \<Rightarrow> 'a list \<Rightarrow> error + 'a" where
  "py_min key xs =
     (case xs of
        [] \<Rightarrow> Inl (ValueError ''min() arg is an empty sequence'')
      | x # rest \<Rightarrow> Inr (min_from key x rest))"

definition row_sums :: "cost_matrix \<Rightarrow> real list" where
  "row_sums cost = map sum_list cost"

text \<open>\<open>np.argmin\<close> returns the index of the first occurrence of the minimum.\<close>

definition choose_central_start :: "cost_matrix \<Rightarrow> nat" where
  "choose_central_start cost =
     (let n = length cost in
      if n = 0 then 0
      else min_from (\<lambda>i. row_sums cost ! i) 0 [1..<n])"

subsection \<open>Nearest-neighbour construction\<close>

text \<open>
  \<open>unvisited\<close> is a Python set of indices. It is represented by the ascending list of its
  members. Python does not fix the order in which a set is iterated; \<open>min\<close> over a set
  takes the first minimal member in that order. The order is a parameter of the model: a
  \<open>set_layout\<close> gives every member of a set a slot number, and the set is iterated by
  ascending slot number (members with equal slot numbers by ascending index). Every
  enumeration of a set arises from some layout; the layout \<open>\<lambda>members j. j\<close> iterates in
  index order.
\<close>

type_synonym set_layout = "nat list \<Rightarrow> nat \<Rightarrow> nat"

definition set_iteration :: "set_layout \<Rightarrow> nat list \<Rightarrow> nat list" where
  "set_iteration layout members = sort_key (layout members) members"

definition index_order :: set_layout where
  "index_order members j = j"

definition clamp_index :: "nat \<Rightarrow> int \<Rightarrow> nat" where
  "clamp_index n i = nat (max 0 (min i (int n - 1)))"

definition choices_of :: "nat option \<Rightarrow> nat list \<Rightarrow> nat list" where
  "choices_of end_idx unvisited =
     (case end_idx of
        None \<Rightarrow> unvisited
      | Some e \<Rightarrow>
          if e \<in> set unvisited \<and> length unvisited > 1 then removeAll e unvisited
          else unvisited)"

function nn_loop ::
  "set_layout \<Rightarrow> cost_matrix \<Rightarrow> nat option \<Rightarrow> nat list \<Rightarrow> nat list \<Rightarrow> nat \<Rightarrow> error + nat list"
where
  "nn_loop layout cost end_idx unvisited path current =
     (if unvisited = [] then Inr path
      else
        (case py_min (\<lambda>j. cost ! current ! j)
                (set_iteration layout (choices_of end_idx unvisited)) of
           Inl err \<Rightarrow> Inl err
         | Inr next_node \<Rightarrow>
             if next_node \<in> set unvisited
             then nn_loop layout cost end_idx (removeAll next_node unvisited)
                    (path @ [next_node]) next_node
             else Inl KeyError))"
  by pat_completeness auto
termination
  by (relation "measure (\<lambda>(layout, cost, end_idx, unvisited, path, current). length unvisited)")
     (auto simp: length_removeAll_less)

definition nearest_neighbor_path ::
  "set_layout \<Rightarrow> cost_matrix \<Rightarrow> int \<Rightarrow> int option \<Rightarrow> error + nat list"
where
  "nearest_neighbor_path layout cost start end_idx =
     (let n = length cost in
      if n = 0 then Inr []
      else
        let start' = clamp_index n start;
            end' = (case end_idx of
                      None \<Rightarrow> None
                    | Some e \<Rightarrow>
                        let e' = clamp_index n e in
                        if e' = start' then None else Some e')
        in nn_loop layout cost end' (removeAll start' [0..<n]) [start'] start')"

subsection \<open>2-Opt refinement\<close>

text \<open>
  The inner \<open>for k\<close> loop and the outer \<open>for i\<close> loop of one scan: the first candidate
  that is cheaper than \<open>best_cost\<close> by more than \<open>1e-9\<close> ends both loops. The slices
  \<open>best[:i]\<close>, \<open>best[i:k + 1]\<close> and \<open>best[k + 1:]\<close> are \<open>take i best\<close>,
  \<open>take (k + 1 - i) (drop i best)\<close> and \<open>drop (k + 1) best\<close>.
\<close>

definition reverse_segment :: "nat list \<Rightarrow> nat \<Rightarrow> nat \<Rightarrow> nat list" where
  "reverse_segment best i k =
     take i best @ rev (take (k + 1 - i) (drop i best)) @ drop (k + 1) best"

fun scan_k ::
  "cost_matrix \<Rightarrow> nat list \<Rightarrow> real \<Rightarrow> nat \<Rightarrow> nat list \<Rightarrow> (nat list \<times> real) option"
where
  "scan_k cost best best_cost i [] = None"
| "scan_k cost best best_cost i (k # ks) =
     (if int k - int i < 1 then scan_k cost best best_cost i ks
      else
        let candidate = reverse_segment best i k;
            cand_cost = path_cost cost candidate
        in if cand_cost + 1 / 10 ^ 9 < best_cost then Some (candidate, cand_cost)
           else scan_k cost best best_cost i ks)"

fun scan_i ::
  "cost_matrix \<Rightarrow> nat list \<Rightarrow> real \<Rightarrow> nat \<Rightarrow> nat list \<Rightarrow> (nat list \<times> real) option"
where
  "scan_i cost best best_cost n [] = None"
| "scan_i cost best best_cost n (i # is) =
     (case scan_k cost best best_cost i [i + 1..<n - 1] of
        Some found \<Rightarrow> Some found
      | None \<Rightarrow> scan_i cost best best_cost n is)"

function two_opt_loop ::
  "cost_matrix \<Rightarrow> nat \<Rightarrow> nat \<Rightarrow> nat \<Rightarrow> nat list \<Rightarrow> real \<Rightarrow> nat \<Rightarrow> nat list"
where
  "two_opt_loop cost n start_i max_iter best best_cost iters =
     (if iters < max_iter
      then
        (case scan_i cost best best_cost n [start_i..<n - 2] of
           None \<Rightarrow> best
         | Some (candidate, cand_cost) \<Rightarrow>
             two_opt_loop cost n start_i max_iter candidate cand_cost (iters + 1))
      else best)"
  by pat_completeness auto
termination
  by (relation "measure (\<lambda>(cost, n, start_i, max_iter, best, best_cost, iters). max_iter - iters)")
     auto

definition two_opt_improve :: "cost_matrix \<Rightarrow> nat list \<Rightarrow> bool \<Rightarrow> nat \<Rightarrow> nat list" where
  "two_opt_improve cost path fixed_start max_iter =
     (let n = length path in
      if n \<le> 3 then path
      else two_opt_loop cost n (if fixed_start then 1 else 0) max_iter
             path (path_cost cost path) 0)"

subsection \<open>The optimizer\<close>

record OptimizeResult =
  order :: "nat list"
  total_cost :: real

definition optimize_order_from_durations ::
  "set_layout \<Rightarrow> real option list list \<Rightarrow> int option \<Rightarrow> int option \<Rightarrow> error + OptimizeResult"
where
  "optimize_order_from_durations layout durations_s fixed_start_index fixed_end_index =
     (case to_cost_matrix durations_s of
        Inl err \<Rightarrow> Inl err
      | Inr arr \<Rightarrow>
     (case validate_full_matrix arr of
        Inl err \<Rightarrow> Inl err
      | Inr _ \<Rightarrow>
          let cost = cost_values arr; n = length cost in
          if n \<le> 1 then Inr \<lparr>order = [0..<n], total_cost = 0\<rparr>
          else
            let end0 = map_option (clamp_index n) fixed_end_index;
                fixed_start = (fixed_start_index \<noteq> None)
            in
              (case (case fixed_start_index of
                       None \<Rightarrow>
                         if n = 0 then Inr 0
                         else
                           (case end0 of
                              None \<Rightarrow> Inr (choose_central_start cost)
                            | Some e \<Rightarrow>
                                py_min (\<lambda>i. row_sums cost ! i) (filter (\<lambda>i. i \<noteq> e) [0..<n]))
                     | Some s \<Rightarrow> Inr (clamp_index n s)) of
                 Inl err \<Rightarrow> Inl err
               | Inr start \<Rightarrow>
                   let end1 = (if end0 = Some start then None else end0) in
                   (case nearest_neighbor_path layout cost (int start) (map_option int end1) of
                      Inl err \<Rightarrow> Inl err
                    | Inr nn \<Rightarrow>
                        let improved = two_opt_improve cost nn fixed_start 2000
                        in Inr \<lparr>order = improved, total_cost = path_cost cost improved\<rparr>))))"

text \<open>
  A valid cost matrix for \<open>N \<ge> 1\<close> stops: \<open>N\<close> rows of \<open>N\<close> cells, none of them missing.
\<close>

definition valid_matrix :: "real option list list \<Rightarrow> bool" where
  "valid_matrix m =
     (m \<noteq> [] \<and> list_all (\<lambda>row. length row = length m \<and> list_all (\<lambda>c. c \<noteq> None) row) m)"

text \<open>
  The parts of \<open>optimize_order_from_durations\<close> after validation, named for the proofs:
  the choice of the start index, the end index handed to the construction, and the body.
\<close>

definition start_choice :: "cost_matrix \<Rightarrow> int option \<Rightarrow> int option \<Rightarrow> error + nat" where
  "start_choice cost fs fe =
     (let n = length cost in
      case fs of
        None \<Rightarrow>
          if n = 0 then Inr 0
          else
            (case map_option (clamp_index n) fe of
               None \<Rightarrow> Inr (choose_central_start cost)
             | Some e \<Rightarrow> py_min (\<lambda>i. row_sums cost ! i) (filter (\<lambda>i. i \<noteq> e) [0..<n]))
      | Some s \<Rightarrow> Inr (clamp_index n s))"

definition end_choice :: "nat \<Rightarrow> nat \<Rightarrow> int option \<Rightarrow> int option" where
  "end_choice n start fe =
     map_option int (if map_option (clamp_index n) fe = Some start then None
                     else map_option (clamp_index n) fe)"

definition optimize_core ::
  "set_layout \<Rightarrow> cost_matrix \<Rightarrow> int option \<Rightarrow> int option \<Rightarrow> error + OptimizeResult" where
  "optimize_core layout cost fs fe =
     (if length cost \<le> 1 then Inr \<lparr>order = [0..<length cost], total_cost = 0\<rparr>
      else
        (case start_choice cost fs fe of
           Inl err \<Rightarrow> Inl err
         | Inr start \<Rightarrow>
             (case nearest_neighbor_path layout cost (int start) (end_choice (length cost) start fe) of
                Inl err \<Rightarrow> Inl err
              | Inr nn \<Rightarrow>
                  Inr \<lparr>order = two_opt_improve cost nn (fs \<noteq> None) 2000,
                       total_cost = path_cost cost (two_opt_improve cost nn (fs \<noteq> None) 2000)\<rparr>)))"

section \<open>Constrained route selection (trips_service.py, optimize_trip_route)\<close>

subsection \<open>Python text helpers\<close>

text \<open>
  A text is a list of 8-bit characters, read as the code points 0 to 255. \<open>str.strip()\<close>
  removes from both ends the characters for which \<open>str.isspace\<close> holds: tab, line feed,
  vertical tab, form feed and carriage return (9 to 13), the separators \<open>0x1c\<close> to
  \<open>0x1f\<close>, space, next line (\<open>0x85\<close>) and no-break space (\<open>0xa0\<close>). \<open>str.lower()\<close>
  moves the capital letters \<open>A\<close> to \<open>Z\<close> and \<open>0xc0\<close> to \<open>0xde\<close> (the multiplication
  sign \<open>0xd7\<close> apart) 32 places on.
\<close>

definition is_space :: "char \<Rightarrow> bool" where
  "is_space c =
     (let n = (of_char c :: nat) in
      (9 \<le> n \<and> n \<le> 13) \<or> (28 \<le> n \<and> n \<le> 32) \<or> n = 133 \<or> n = 160)"

definition strip :: "string \<Rightarrow> string" where
  "strip s = rev (dropWhile is_space (rev (dropWhile is_space s)))"

definition lower_char :: "char \<Rightarrow> char" where
  "lower_char c =
     (let n = (of_char c :: nat) in
      if (65 \<le> n \<and> n \<le> 90) \<or> (192 \<le> n \<and> n \<le> 222 \<and> n \<noteq> 215) then char_of (n + 32)
      else c)"

definition lower :: "string \<Rightarrow> string" where
  "lower s = map lower_char s"

text \<open>
  \<open>int(text)\<close> has its own white space: it turns the two non-ASCII blanks \<open>0x85\<close> and
  \<open>0xa0\<close> into spaces and then skips tab, line feed, vertical tab, form feed, carriage
  return and space at both ends; the separators \<open>0x1c\<close> to \<open>0x1f\<close> are not skipped. What
  remains must be an optional sign followed by decimal digits with single underscores
  between digits, and at most 4300 digits (the interpreter's default limit on the
  conversion); otherwise \<open>int\<close> raises \<open>ValueError\<close>, here \<open>None\<close>.
\<close>

definition is_int_space :: "char \<Rightarrow> bool" where
  "is_int_space c =
     (let n = (of_char c :: nat) in (9 \<le> n \<and> n \<le> 13) \<or> n = 32 \<or> n = 133 \<or> n = 160)"

definition is_digit :: "char \<Rightarrow> bool" where
  "is_digit c = (let n = (of_char c :: nat) in 48 \<le> n \<and> n \<le> 57)"

fun digits_value :: "string \<Rightarrow> nat \<Rightarrow> bool \<Rightarrow> nat option" where
  "digits_value [] acc after_digit = (if after_digit then Some acc else None)"
| "digits_value (c # cs) acc after_digit =
     (if is_digit c then digits_value cs (acc * 10 + (of_char c - 48)) True
      else if c = CHR ''_'' \<and> after_digit then digits_value cs acc False
      else None)"

definition int_of_text :: "string \<Rightarrow> int option" where
  "int_of_text s =
     (case rev (dropWhile is_int_space (rev (dropWhile is_int_space s))) of
        [] \<Rightarrow> None
      | c # cs \<Rightarrow>
          let ds = (if c = CHR ''-'' \<or> c = CHR ''+'' then cs else c # cs) in
          if length (filter is_digit ds) > 4300 then None
          else if c = CHR ''-'' then map_option (\<lambda>n. - int n) (digits_value ds 0 False)
          else map_option int (digits_value ds 0 False))"

text \<open>
  \<open>_region_match\<close>: containment of the normalised texts in either direction, or a similarity
  ratio above \<open>0.8\<close>. The ratio is computed by \<open>difflib.SequenceMatcher\<close>; the test
  \<open>ratio > 0.8\<close> is the parameter \<open>similar\<close>.
\<close>

definition region_match :: "(string \<Rightarrow> string \<Rightarrow> bool) \<Rightarrow> string \<Rightarrow> string \<Rightarrow> bool" where
  "region_match similar user_text val =
     (let ut = lower (strip user_text); vv = lower (strip val) in
      if ut = [] \<or> vv = [] then False
      else if sublist ut vv \<or> sublist vv ut then True
      else similar ut vv)"

subsection \<open>Rows, anchors and candidates\<close>

text \<open>
  A row of the selected stops of a trip, with the columns the two operations read. The trip
  row holds its status and the preferred start and end regions.
\<close>

record stop_row =
  location_id :: int
  locality :: "string option"
  region :: "string option"
  category :: "string option"
  latitude :: "real option"
  longitude :: "real option"

record trip_row =
  trip_status :: "string option"
  start_region :: "string option"
  end_region :: "string option"

record OsrmTableResult =
  distances_m :: "real option list list"
  durations_s :: "real option list list"

text \<open>An anchor id given by the caller is an integer or a text.\<close>

datatype location_ref = IntId int | StrId string

fun is_blank :: "location_ref \<Rightarrow> bool" where
  "is_blank (IntId i) = False"
| "is_blank (StrId s) = (strip s = [])"

fun py_int :: "location_ref \<Rightarrow> int option" where
  "py_int (IntId i) = Some i"
| "py_int (StrId s) = int_of_text s"

text \<open>
  \<open>id_to_index\<close> is the dictionary built from \<open>enumerate(rows)\<close>: a later row with the same
  id replaces an earlier one.
\<close>

definition id_to_index :: "stop_row list \<Rightarrow> int \<Rightarrow> nat option" where
  "id_to_index rows = map_of (rev (zip (map location_id rows) [0..<length rows]))"

text \<open>
  The \<open>try\<close> blocks of the explicit selectors: an id that is \<open>None\<close> or blank leaves the
  index \<open>None\<close>; an id that \<open>int\<close> rejects raises inside the \<open>try\<close> and the handler sets
  the index to \<open>None\<close>; \<open>dict.get\<close> yields \<open>None\<close> for an id that is not a key.
\<close>

definition hard_index :: "(int \<Rightarrow> nat option) \<Rightarrow> location_ref option \<Rightarrow> nat option" where
  "hard_index idx ref =
     (case ref of
        None \<Rightarrow> None
      | Some x \<Rightarrow>
          if is_blank x then None
          else (case py_int x of None \<Rightarrow> None | Some i \<Rightarrow> idx i))"

definition or_empty :: "string option \<Rightarrow> string" where
  "or_empty v = (case v of None \<Rightarrow> [] | Some t \<Rightarrow> t)"

definition preference_candidates ::
  "(string \<Rightarrow> string \<Rightarrow> bool) \<Rightarrow> string \<Rightarrow> nat option \<Rightarrow> stop_row list \<Rightarrow> nat list"
where
  "preference_candidates similar pref hard_idx rows =
     (if pref \<noteq> [] \<and> hard_idx = None
      then filter (\<lambda>i. region_match similar pref (or_empty (locality (rows ! i)))
                       \<or> region_match similar pref (or_empty (region (rows ! i))))
             [0..<length rows]
      else [])"

subsection \<open>Baseline, soft candidates and acceptance\<close>

text \<open>
  The two nested loops over \<open>start_options\<close> and \<open>end_options\<close>; \<open>best_soft\<close> is the
  accumulator. An exception of the optimizer ends the loops.
\<close>

fun soft_inner ::
  "set_layout \<Rightarrow> real option list list \<Rightarrow> nat option \<Rightarrow> nat option \<Rightarrow> nat option \<Rightarrow>
   nat option list \<Rightarrow> OptimizeResult option \<Rightarrow> error + OptimizeResult option"
where
  "soft_inner layout durations hard_start_idx hard_end_idx s [] best_soft = Inr best_soft"
| "soft_inner layout durations hard_start_idx hard_end_idx s (e # es) best_soft =
     (if s = None \<and> e = None
      then soft_inner layout durations hard_start_idx hard_end_idx s es best_soft
      else if s \<noteq> None \<and> e \<noteq> None \<and> s = e
      then soft_inner layout durations hard_start_idx hard_end_idx s es best_soft
      else
        let fs = (if hard_start_idx \<noteq> None then hard_start_idx else s);
            fe = (if hard_end_idx \<noteq> None then hard_end_idx else e)
        in
          if fs \<noteq> None \<and> fe \<noteq> None \<and> fs = fe
          then soft_inner layout durations hard_start_idx hard_end_idx s es best_soft
          else
            (case optimize_order_from_durations layout durations
                    (map_option int fs) (map_option int fe) of
               Inl err \<Rightarrow> Inl err
             | Inr cand \<Rightarrow>
                 soft_inner layout durations hard_start_idx hard_end_idx s es
                   (case best_soft of
                      None \<Rightarrow> Some cand
                    | Some b \<Rightarrow> if total_cost cand < total_cost b then Some cand else Some b)))"

fun soft_search ::
  "set_layout \<Rightarrow> real option list list \<Rightarrow> nat option \<Rightarrow> nat option \<Rightarrow> nat option list \<Rightarrow>
   nat option list \<Rightarrow> OptimizeResult option \<Rightarrow> error + OptimizeResult option"
where
  "soft_search layout durations hard_start_idx hard_end_idx [] end_options best_soft =
     Inr best_soft"
| "soft_search layout durations hard_start_idx hard_end_idx (s # ss) end_options best_soft =
     (case soft_inner layout durations hard_start_idx hard_end_idx s end_options best_soft of
        Inl err \<Rightarrow> Inl err
      | Inr b \<Rightarrow> soft_search layout durations hard_start_idx hard_end_idx ss end_options b)"

definition accept_soft :: "OptimizeResult \<Rightarrow> OptimizeResult option \<Rightarrow> OptimizeResult" where
  "accept_soft base best_soft =
     (case best_soft of
        None \<Rightarrow> base
      | Some b \<Rightarrow>
          if total_cost base > 0
          then (if total_cost b \<le> total_cost base * (1 + 12 / 100) then b else base)
          else base)"

definition select_route ::
  "set_layout \<Rightarrow> real option list list \<Rightarrow> nat option \<Rightarrow> nat option \<Rightarrow> nat list \<Rightarrow> nat list \<Rightarrow>
   error + OptimizeResult"
where
  "select_route layout durations hard_start_idx hard_end_idx start_candidates end_candidates =
     (case optimize_order_from_durations layout durations
             (map_option int hard_start_idx) (map_option int hard_end_idx) of
        Inl err \<Rightarrow> Inl err
      | Inr base \<Rightarrow>
          (case soft_search layout durations hard_start_idx hard_end_idx
                  (None # map Some start_candidates) (None # map Some end_candidates) None of
             Inl err \<Rightarrow> Inl err
           | Inr best_soft \<Rightarrow> Inr (accept_soft base best_soft)))"

subsection \<open>The optimize operation\<close>

text \<open>
  Python's \<open>round\<close> rounds half to even; \<open>round(x, d)\<close> is modelled on the exact decimal
  value.
\<close>

definition py_round :: "real \<Rightarrow> int" where
  "py_round x =
     (let f = \<lfloor>x\<rfloor>; d = x - of_int f in
      if d < 1 / 2 then f
      else if 1 / 2 < d then f + 1
      else if even f then f else f + 1)"

definition round_digits :: "nat \<Rightarrow> real \<Rightarrow> real" where
  "round_digits d x = of_int (py_round (x * 10 ^ d)) / 10 ^ d"

text \<open>
  \<open>fetch_table_matrix\<close> for two or more coordinates: more than 100 coordinates raise before
  any request; otherwise the outcome of the request to the routing service is the parameter
  \<open>osrm\<close> (a \<open>RuntimeError\<close> or the two matrices).
\<close>

definition fetch_table_matrix ::
  "error + OsrmTableResult \<Rightarrow> (real \<times> real) list \<Rightarrow> error + OsrmTableResult"
where
  "fetch_table_matrix osrm coordinates =
     (if coordinates = [] then Inr \<lparr>distances_m = [], durations_s = []\<rparr>
      else if length coordinates = 1
        then Inr \<lparr>distances_m = [[Some 0]], durations_s = [[Some 0]]\<rparr>
      else if length coordinates > 100
        then Inl (ValueError ''Too many coordinates for OSRM table (max 100).'')
      else osrm)"

definition matrix_cell :: "'a list list \<Rightarrow> nat \<Rightarrow> nat \<Rightarrow> error + 'a" where
  "matrix_cell m a b =
     (if a < length m \<and> b < length (m ! a) then Inr (m ! a ! b) else Inl IndexError)"

fun route_totals ::
  "OsrmTableResult \<Rightarrow> (nat \<times> nat) list \<Rightarrow> real \<Rightarrow> real \<Rightarrow> error + (real \<times> real)"
where
  "route_totals table [] total_distance_m total_duration_s =
     Inr (total_distance_m, total_duration_s)"
| "route_totals table ((a, b) # edges) total_distance_m total_duration_s =
     (case matrix_cell (distances_m table) a b of
        Inl err \<Rightarrow> Inl err
      | Inr d_m \<Rightarrow>
     (case matrix_cell (durations_s table) a b of
        Inl err \<Rightarrow> Inl err
      | Inr t_s \<Rightarrow>
     (case (d_m, t_s) of
        (Some d, Some t) \<Rightarrow>
          route_totals table edges (total_distance_m + d) (total_duration_s + t)
      | _ \<Rightarrow> Inl (ValueError ''OSRM matrix contains unreachable pairs''))))"

record optimize_response =
  optimized_order :: "int list"
  total_distance_km :: real
  total_duration_min :: real
  total_locations :: nat

text \<open>
  The operation from the loaded trip row and stop rows to its response. The database reads
  are the parameters \<open>trip\<close> and \<open>rows\<close>; the writes of the visit order and of the route
  snapshot are not modelled.
\<close>

definition optimize_trip_route ::
  "set_layout \<Rightarrow> (string \<Rightarrow> string \<Rightarrow> bool) \<Rightarrow> trip_row option \<Rightarrow> stop_row list \<Rightarrow>
   error + OsrmTableResult \<Rightarrow> location_ref option \<Rightarrow> location_ref option \<Rightarrow>
   error + optimize_response"
where
  "optimize_trip_route layout similar trip rows osrm start_location_id end_location_id =
     (case trip of
        None \<Rightarrow> Inl (LookupError ''Trip not found'')
      | Some t \<Rightarrow>
     if (case trip_status t of None \<Rightarrow> ''draft'' | Some st \<Rightarrow> if st = [] then ''draft'' else st)
          = ''finalized''
     then Inl (PermissionError ''Trip is finalized'')
     else if length rows \<le> 1
     then Inr \<lparr>optimized_order = map location_id rows, total_distance_km = 0,
               total_duration_min = 0, total_locations = length rows\<rparr>
     else if list_ex (\<lambda>r. latitude r = None \<or> longitude r = None) rows
     then Inl (ValueError ''Missing coordinates'')
     else
     (case fetch_table_matrix osrm
             (map (\<lambda>r. (the (longitude r), the (latitude r))) rows) of
        Inl err \<Rightarrow> Inl err
      | Inr table \<Rightarrow>
          let hard_start_idx = hard_index (id_to_index rows) start_location_id;
              hard_end0 = hard_index (id_to_index rows) end_location_id;
              hard_end_idx =
                (if hard_start_idx \<noteq> None \<and> hard_end0 \<noteq> None \<and> hard_start_idx = hard_end0
                 then None else hard_end0);
              start_pref = strip (or_empty (start_region t));
              end_pref = strip (or_empty (end_region t));
              start_candidates = preference_candidates similar start_pref hard_start_idx rows;
              end_candidates = preference_candidates similar end_pref hard_end_idx rows
          in
            (case select_route layout (durations_s table) hard_start_idx hard_end_idx
                    start_candidates end_candidates of
               Inl err \<Rightarrow> Inl err
             | Inr result \<Rightarrow>
                 (case route_totals table (zip (order result) (tl (order result))) 0 0 of
                    Inl err \<Rightarrow> Inl err
                  | Inr (total_distance_m, total_duration_s) \<Rightarrow>
                      Inr \<lparr>optimized_order = map (\<lambda>i. location_id (rows ! i)) (order result),
                           total_distance_km = round_digits 3 (total_distance_m / 1000),
                           total_duration_min = round_digits 1 (total_duration_s / 60),
                           total_locations = length rows\<rparr>))))"

section \<open>Day packing (trips_service.py, build_trip_itinerary)\<close>

subsection \<open>Budgets and visit estimates\<close>

definition pace_key_of :: "string option \<Rightarrow> string" where
  "pace_key_of pace =
     lower (strip (case pace of None \<Rightarrow> ''balanced'' | Some p \<Rightarrow> if p = [] then ''balanced'' else p))"

definition target_active_min :: "string \<Rightarrow> real" where
  "target_active_min pace_key =
     (if pace_key = ''relaxed'' then 360
      else if pace_key = ''balanced'' then 480
      else if pace_key = ''packed'' then 600
      else 480)"

definition daily_overhead_min :: real where
  "daily_overhead_min = 120"

definition tolerance_min :: real where
  "tolerance_min = 45"

definition base_by_category :: "string \<Rightarrow> int option" where
  "base_by_category =
     map_of [(''heritage'', 90), (''museum'', 90), (''religious'', 75), (''nature'', 120),
             (''beach'', 120), (''adventure'', 180), (''food'', 60), (''shopping'', 75),
             (''viewpoint'', 45), (''entertainment'', 90), (''wellness'', 120),
             (''local-experience'', 90)]"

text \<open>
  The multipliers are the values of the float literals \<open>1.15\<close> and \<open>0.85\<close>, which are the
  binary fractions below. The product is taken exactly; for every entry of the table and
  for the default it rounds to the same integer as the floating-point product.
\<close>

definition pace_mult :: "string \<Rightarrow> real" where
  "pace_mult pace_key =
     (if pace_key = ''relaxed'' then 2589569785738035 / 2251799813685248
      else if pace_key = ''packed'' then 7656119366529843 / 9007199254740992
      else 1)"

definition estimate_visit_min :: "string \<Rightarrow> string option \<Rightarrow> int" where
  "estimate_visit_min pace_key cat =
     (let c = lower (strip (or_empty cat));
          minutes = (case base_by_category c of None \<Rightarrow> 75 | Some b \<Rightarrow> b);
          minutes' = py_round (of_int minutes * pace_mult pace_key)
      in max 30 minutes')"

subsection \<open>Packing one day, and all days\<close>

text \<open>
  An entry of \<open>current_day_locs\<close>, and the variables of the inner loop at its end: the
  stops of the day and the running sums of the active, travel and visit minutes before any
  stretching.
\<close>

record day_item =
  loc :: stop_row
  travel :: real
  visit :: real

record packed_day =
  current_day_locs :: "day_item list"
  current_day_active :: real
  current_day_travel :: real
  current_day_visit :: real

definition empty_day :: packed_day where
  "empty_day = \<lparr>current_day_locs = [], current_day_active = 0, current_day_travel = 0,
                 current_day_visit = 0\<rparr>"

text \<open>
  The inner \<open>while temp_locs_queue\<close> loop. It returns the day, the remaining queue and
  \<open>prev_loc_id\<close>, which is not reset between days.
\<close>

fun pack_day ::
  "string \<Rightarrow> (int \<times> int \<Rightarrow> real option) \<Rightarrow> stop_row list \<Rightarrow> int option \<Rightarrow> packed_day \<Rightarrow>
   packed_day \<times> stop_row list \<times> int option"
where
  "pack_day pace_key seg_map [] prev_loc_id day = (day, [], prev_loc_id)"
| "pack_day pace_key seg_map (l # queue) prev_loc_id day =
     (let loc_id = location_id l;
          travel_min =
            (case prev_loc_id of
               None \<Rightarrow> 0
             | Some p \<Rightarrow> (case seg_map (p, loc_id) of None \<Rightarrow> 0 | Some t \<Rightarrow> t));
          visit_min = of_int (estimate_visit_min pace_key (category l));
          step_active = travel_min + visit_min
      in
        if current_day_locs day \<noteq> []
           \<and> current_day_active day + step_active > target_active_min pace_key + tolerance_min
        then (day, l # queue, prev_loc_id)
        else
          pack_day pace_key seg_map queue (Some loc_id)
            \<lparr>current_day_locs =
                 current_day_locs day @ [\<lparr>loc = l, travel = travel_min, visit = visit_min\<rparr>],
             current_day_active = current_day_active day + step_active,
             current_day_travel = current_day_travel day + travel_min,
             current_day_visit = current_day_visit day + visit_min\<rparr>)"

text \<open>The outer \<open>while temp_locs_queue\<close> loop, collecting the packed days in order.\<close>

function pack_days ::
  "string \<Rightarrow> (int \<times> int \<Rightarrow> real option) \<Rightarrow> stop_row list \<Rightarrow> int option \<Rightarrow> packed_day list \<Rightarrow>
   packed_day list"
where
  "pack_days pace_key seg_map queue prev_loc_id days =
     (if queue = [] then days
      else
        (case pack_day pace_key seg_map queue prev_loc_id empty_day of
           (day, rest, prev') \<Rightarrow>
             pack_days pace_key seg_map rest prev'
               (if current_day_locs day \<noteq> [] then days @ [day] else days)))"
  by pat_completeness auto

lemma pack_day_rest_le:
  "pack_day pace_key seg_map queue prev_loc_id day = (day', rest, prev') \<Longrightarrow>
     length rest \<le> length queue"
proof (induction queue arbitrary: prev_loc_id day)
  case Nil
  then show ?case by simp
next
  case (Cons l queue)
  then show ?case by (fastforce simp: Let_def split: if_splits)
qed

lemma pack_day_consumes:
  assumes "pack_day pace_key seg_map queue prev_loc_id empty_day = (day', rest, prev')"
    and "queue \<noteq> []"
  shows "length rest < length queue"
proof -
  from assms(2) obtain l q where q: "queue = l # q" by (cases queue) auto
  from assms(1) obtain d p where "pack_day pace_key seg_map q p d = (day', rest, prev')"
    unfolding q by (simp add: Let_def empty_day_def)
  from pack_day_rest_le [OF this] show ?thesis by (simp add: q)
qed

termination pack_days
  by (relation "measure (\<lambda>(pace_key, seg_map, queue, prev_loc_id, days). length queue)")
     (auto dest: pack_day_consumes [OF sym])

subsection \<open>Stretching, day payload and equalization\<close>

record itinerary_location =
  stop :: stop_row
  estimated_visit_min :: int
  estimated_travel_from_prev_min :: real

record day_plan =
  day_number :: nat
  locations :: "itinerary_location list"
  travel_min :: real
  visit_min :: real
  active_min :: real
  overhead_min :: real
  total_min :: real

text \<open>\<open>int(x)\<close> on a float truncates towards zero.\<close>

definition py_trunc :: "real \<Rightarrow> int" where
  "py_trunc x = (if 0 \<le> x then \<lfloor>x\<rfloor> else \<lceil>x\<rceil>)"

definition stretch_day :: "string \<Rightarrow> packed_day \<Rightarrow> packed_day" where
  "stretch_day pace_key day =
     (let slack = target_active_min pace_key - current_day_active day in
      if slack > 15 \<and> current_day_visit day > 0
      then
        let stretch_factor =
              min (3 / 2) ((current_day_visit day + slack) / current_day_visit day);
            items = map (\<lambda>item. item\<lparr>visit := round_digits 1 (visit item * stretch_factor)\<rparr>)
                      (current_day_locs day);
            new_visit_total = fold (\<lambda>item total. total + visit item) items 0
        in day\<lparr>current_day_locs := items,
                current_day_visit := new_visit_total,
                current_day_active := current_day_travel day + new_visit_total\<rparr>
      else day)"

definition day_payload :: "nat \<Rightarrow> packed_day \<Rightarrow> day_plan" where
  "day_payload number day =
     \<lparr>day_number = number,
      locations =
        map (\<lambda>item. \<lparr>stop = loc item,
                       estimated_visit_min = py_trunc (visit item),
                       estimated_travel_from_prev_min = round_digits 1 (travel item)\<rparr>)
            (current_day_locs day),
      travel_min = round_digits 1 (current_day_travel day),
      visit_min = round_digits 1 (current_day_visit day),
      active_min = round_digits 1 (current_day_active day),
      overhead_min = daily_overhead_min,
      total_min = round_digits 1 (current_day_active day + daily_overhead_min)\<rparr>"

text \<open>
  The payloads of the packed days with their day numbers. In the source a day is stretched
  and appended to \<open>days_global\<close> right after it is packed; the step reads only that day's
  variables and the length of \<open>days_global\<close>.
\<close>

fun day_payloads :: "string \<Rightarrow> nat \<Rightarrow> packed_day list \<Rightarrow> day_plan list" where
  "day_payloads pace_key number [] = []"
| "day_payloads pace_key number (day # days) =
     day_payload number (stretch_day pace_key day) # day_payloads pace_key (number + 1) days"

definition recalculate :: "day_plan \<Rightarrow> itinerary_location list \<Rightarrow> day_plan" where
  "recalculate day locs =
     (let t = round_digits 1 (sum_list (map estimated_travel_from_prev_min locs));
          v = round_digits 1 (sum_list (map (\<lambda>l. of_int (estimated_visit_min l)) locs));
          a = round_digits 1 (t + v)
      in day\<lparr>locations := locs, travel_min := t, visit_min := v, active_min := a,
              total_min := round_digits 1 (a + overhead_min day)\<rparr>)"

definition equalize :: "string \<Rightarrow> day_plan list \<Rightarrow> day_plan list" where
  "equalize pace_key days_global =
     (if length days_global \<ge> 2
      then
        let last_day = last days_global;
            prev = last (butlast days_global)
        in
          if length (locations last_day) = 1 \<and> length (locations prev) > 2
             \<and> active_min last_day < target_active_min pace_key * (1 / 2)
          then
            let shifted = last (locations prev);
                prev' = recalculate prev (butlast (locations prev));
                last' = recalculate last_day (shifted # locations last_day)
            in butlast (butlast days_global) @ [prev', last']
          else days_global
      else days_global)"

text \<open>
  The days of the itinerary (\<open>days_global\<close> after equalization) for the stops \<open>all_locs\<close>
  in visit order and the travel minutes \<open>seg_map\<close> of the stored route. The grouping of the
  days under region headers is not modelled.
\<close>

definition build_trip_itinerary ::
  "string option \<Rightarrow> (int \<times> int \<Rightarrow> real option) \<Rightarrow> stop_row list \<Rightarrow> day_plan list"
where
  "build_trip_itinerary pace seg_map all_locs =
     (let pace_key = pace_key_of pace in
      if all_locs = [] then []
      else equalize pace_key (day_payloads pace_key 1 (pack_days pace_key seg_map all_locs None [])))"

section \<open>Auxiliary definitions\<close>

text \<open>
  The conditions of the soft-candidate loop, named for the proofs: the anchor actually used
  (\<open>fs\<close>, \<open>fe\<close>), the three \<open>continue\<close> tests, and the update of \<open>best_soft\<close>.
\<close>

definition hard_or :: "nat option \<Rightarrow> nat option \<Rightarrow> nat option" where
  "hard_or hard x = (if hard \<noteq> None then hard else x)"

definition soft_skip :: "nat option \<Rightarrow> nat option \<Rightarrow> nat option \<Rightarrow> nat option \<Rightarrow> bool" where
  "soft_skip hs he s e =
     ((s = None \<and> e = None) \<or> (s \<noteq> None \<and> e \<noteq> None \<and> s = e)
      \<or> (hard_or hs s \<noteq> None \<and> hard_or he e \<noteq> None \<and> hard_or hs s = hard_or he e))"

definition better :: "OptimizeResult option \<Rightarrow> OptimizeResult \<Rightarrow> OptimizeResult option" where
  "better best_soft cand =
     (case best_soft of
        None \<Rightarrow> Some cand
      | Some b \<Rightarrow> if total_cost cand < total_cost b then Some cand else Some b)"

text \<open>
  The four-stop scenario of the specification: its duration matrix as the optimizer receives
  it, and as a matrix of numbers.
\<close>

definition scenario_durations :: "real option list list" where
  "scenario_durations =
     [[Some 0, Some 10, Some 15, Some 20], [Some 10, Some 0, Some 35, Some 25],
      [Some 15, Some 35, Some 0, Some 30], [Some 20, Some 25, Some 30, Some 0]]"

definition scenario_cost :: cost_matrix where
  "scenario_cost = [[0, 10, 15, 20], [10, 0, 35, 25], [15, 35, 0, 30], [20, 25, 30, 0]]"

text \<open>
  A matrix of nine stops in which all travel times between different stops are equal, so
  that every choice of the construction is a tie; and the order in which CPython iterates
  the candidate sets \<open>unvisited - {end}\<close> of a run on nine stops: a difference set with
  fewer than five members is built in a fresh hash table of eight slots and iterated by
  slot, the integer \<open>j\<close> in slot \<open>j mod 8\<close>; the larger ones are iterated in index order.
\<close>

definition hash_slot_order :: set_layout where
  "hash_slot_order members j = (if length members < 5 then j mod 8 else j)"

definition tie_durations :: "real option list list" where
  "tie_durations = map (\<lambda>i. map (\<lambda>j. Some (if i = j then 0 else 1)) [0..<9]) [0..<9]"

definition tie_cost :: cost_matrix where
  "tie_cost = map (\<lambda>i. map (\<lambda>j. if i = j then 0 else 1) [0..<9]) [0..<9]"

text \<open>
  Two further iteration orders: one that agrees with \<open>hash_slot_order\<close> on every set of
  indices below nine and differs from it on larger indices, and one that iterates every set
  from its largest member down.
\<close>

definition wide_slot_order :: set_layout where
  "wide_slot_order members j = (if length members < 5 then j mod 8 else j mod 16)"

definition descending_order :: set_layout where
  "descending_order members j = fold max members 0 - j"

text \<open>
  The steps of the nearest-neighbour construction, read off a finished route. \<open>kept_end\<close> is
  the end index that \<open>nearest_neighbor_path\<close> keeps after clamping (\<open>None\<close> when it
  coincides with the start). When the first \<open>i + 1\<close> stops of the route are placed,
  \<open>unvisited\<close> holds the indices that are not among them, and \<open>candidates_at\<close> is the set
  \<open>choices\<close> from which stop \<open>i + 1\<close> is taken. A matrix has no ties when, in every row,
  the entries of the columns other than the diagonal are pairwise different.
\<close>

definition kept_end :: "nat \<Rightarrow> int \<Rightarrow> int option \<Rightarrow> nat option" where
  "kept_end n start end_idx =
     (case end_idx of
        None \<Rightarrow> None
      | Some e \<Rightarrow>
          if clamp_index n e = clamp_index n start then None else Some (clamp_index n e))"

definition candidates_at :: "cost_matrix \<Rightarrow> int \<Rightarrow> int option \<Rightarrow> nat list \<Rightarrow> nat \<Rightarrow> nat list" where
  "candidates_at cost start end_idx route i =
     choices_of (kept_end (length cost) start end_idx)
       (filter (\<lambda>j. j \<notin> set (take (Suc i) route)) [0..<length cost])"

definition no_ties :: "real option list list \<Rightarrow> bool" where
  "no_ties m =
     list_all (\<lambda>c. distinct (map (\<lambda>j. m ! c ! j) (filter (\<lambda>j. j \<noteq> c) [0..<length m])))
       [0..<length m]"

text \<open>
  The optimize operation after the anchor ids are resolved, named for the proofs: the end
  index that remains when it coincides with the start index, and the rest of the operation
  as a function of the two resolved indices.
\<close>

definition resolved_end :: "nat option \<Rightarrow> nat option \<Rightarrow> nat option" where
  "resolved_end hard_start_idx hard_end0 =
     (if hard_start_idx \<noteq> None \<and> hard_end0 \<noteq> None \<and> hard_start_idx = hard_end0
      then None else hard_end0)"

definition route_with_anchors ::
  "set_layout \<Rightarrow> (string \<Rightarrow> string \<Rightarrow> bool) \<Rightarrow> trip_row option \<Rightarrow> stop_row list \<Rightarrow>
   error + OsrmTableResult \<Rightarrow> nat option \<Rightarrow> nat option \<Rightarrow> error + optimize_response"
where
  "route_with_anchors layout similar trip rows osrm hard_start_idx hard_end_idx =
     (case trip of
        None \<Rightarrow> Inl (LookupError ''Trip not found'')
      | Some t \<Rightarrow>
     if (case trip_status t of None \<Rightarrow> ''draft'' | Some st \<Rightarrow> if st = [] then ''draft'' else st)
          = ''finalized''
     then Inl (PermissionError ''Trip is finalized'')
     else if length rows \<le> 1
     then Inr \<lparr>optimized_order = map location_id rows, total_distance_km = 0,
               total_duration_min = 0, total_locations = length rows\<rparr>
     else if list_ex (\<lambda>r. latitude r = None \<or> longitude r = None) rows
     then Inl (ValueError ''Missing coordinates'')
     else
     (case fetch_table_matrix osrm
             (map (\<lambda>r. (the (longitude r), the (latitude r))) rows) of
        Inl err \<Rightarrow> Inl err
      | Inr table \<Rightarrow>
          let start_pref = strip (or_empty (start_region t));
              end_pref = strip (or_empty (end_region t));
              start_candidates = preference_candidates similar start_pref hard_start_idx rows;
              end_candidates = preference_candidates similar end_pref hard_end_idx rows
          in
            (case select_route layout (durations_s table) hard_start_idx hard_end_idx
                    start_candidates end_candidates of
               Inl err \<Rightarrow> Inl err
             | Inr result \<Rightarrow>
                 (case route_totals table (zip (order result) (tl (order result))) 0 0 of
                    Inl err \<Rightarrow> Inl err
                  | Inr (total_distance_m, total_duration_s) \<Rightarrow>
                      Inr \<lparr>optimized_order = map (\<lambda>i. location_id (rows ! i)) (order result),
                           total_distance_km = round_digits 3 (total_distance_m / 1000),
                           total_duration_min = round_digits 1 (total_duration_s / 60),
                           total_locations = length rows\<rparr>))))"

text \<open>
  A trip of three stops with ids 10, 20 and 30, no preferred regions, and the matrices the
  routing service returned for it.
\<close>

definition example_row :: "int \<Rightarrow> stop_row" where
  "example_row i = \<lparr>location_id = i, locality = None, region = None, category = None,
                     latitude = Some 0, longitude = Some 0\<rparr>"

definition example_rows :: "stop_row list" where
  "example_rows = [example_row 10, example_row 20, example_row 30]"

definition example_trip :: trip_row where
  "example_trip = \<lparr>trip_status = None, start_region = None, end_region = None\<rparr>"

definition example_table :: OsrmTableResult where
  "example_table =
     \<lparr>distances_m = [[Some 0, Some 1000, Some 5000], [Some 1000, Some 0, Some 2000],
                      [Some 5000, Some 2000, Some 0]],
      durations_s = [[Some 0, Some 60, Some 300], [Some 60, Some 0, Some 120],
                     [Some 300, Some 120, Some 0]]\<rparr>"

definition no_similarity :: "string \<Rightarrow> string \<Rightarrow> bool" where
  "no_similarity a b = False"

text \<open>
  The inner packing loop, named for the proofs: the travel and visit minutes of the next
  stop, the test that closes the day, the day with the stop added, the sum of the travel
  and visit minutes of a day's stops, and the invariant of the loop.
\<close>

definition items_active :: "day_item list \<Rightarrow> real" where
  "items_active items = sum_list (map (\<lambda>item. travel item + visit item) items)"

definition within_ceiling :: "string \<Rightarrow> packed_day \<Rightarrow> bool" where
  "within_ceiling pace_key day =
     (current_day_active day = items_active (current_day_locs day)
      \<and> (length (current_day_locs day) < 2
           \<or> current_day_active day \<le> target_active_min pace_key + tolerance_min))"

definition step_travel :: "(int \<times> int \<Rightarrow> real option) \<Rightarrow> int option \<Rightarrow> stop_row \<Rightarrow> real" where
  "step_travel seg_map prev l =
     (case prev of
        None \<Rightarrow> 0
      | Some p \<Rightarrow> (case seg_map (p, location_id l) of None \<Rightarrow> 0 | Some t \<Rightarrow> t))"

definition step_visit :: "string \<Rightarrow> stop_row \<Rightarrow> real" where
  "step_visit pace_key l = of_int (estimate_visit_min pace_key (category l))"

definition day_closes ::
  "string \<Rightarrow> (int \<times> int \<Rightarrow> real option) \<Rightarrow> int option \<Rightarrow> packed_day \<Rightarrow> stop_row \<Rightarrow> bool" where
  "day_closes pace_key seg_map prev day l =
     (current_day_locs day \<noteq> []
      \<and> current_day_active day + (step_travel seg_map prev l + step_visit pace_key l)
          > target_active_min pace_key + tolerance_min)"

definition add_stop ::
  "string \<Rightarrow> (int \<times> int \<Rightarrow> real option) \<Rightarrow> int option \<Rightarrow> packed_day \<Rightarrow> stop_row \<Rightarrow> packed_day" where
  "add_stop pace_key seg_map prev day l =
     \<lparr>current_day_locs = current_day_locs day
        @ [\<lparr>loc = l, travel = step_travel seg_map prev l, visit = step_visit pace_key l\<rparr>],
      current_day_active =
        current_day_active day + (step_travel seg_map prev l + step_visit pace_key l),
      current_day_travel = current_day_travel day + step_travel seg_map prev l,
      current_day_visit = current_day_visit day + step_visit pace_key l\<rparr>"

text \<open>
  Travel minutes of a stored route in which stop 20 is 1000 minutes from stop 10; a stop of
  category heritage; and a trip without stored travel minutes.
\<close>

definition far_apart :: "int \<times> int \<Rightarrow> real option" where
  "far_apart k = (if k = (10, 20) then Some 1000 else None)"

definition heritage_row :: "int \<Rightarrow> stop_row" where
  "heritage_row i = \<lparr>location_id = i, locality = None, region = None,
                      category = Some ''heritage'', latitude = Some 0, longitude = Some 0\<rparr>"

definition no_segments :: "int \<times> int \<Rightarrow> real option" where
  "no_segments k = None"

section \<open>Properties of the route optimizer\<close>

declare nn_loop.simps [simp del]
declare two_opt_loop.simps [simp del]

lemma min_from_mem: "min_from key b xs \<in> set (b # xs)"
  by (induction xs arbitrary: b) auto

lemma py_min_mem: "py_min key xs = Inr x \<Longrightarrow> x \<in> set xs"
  using min_from_mem [of key] by (auto simp: py_min_def split: list.splits)

lemma py_min_Inr: "xs \<noteq> [] \<Longrightarrow> \<exists>x. py_min key xs = Inr x"
  by (auto simp: py_min_def split: list.splits)

lemma set_set_iteration [simp]: "set (set_iteration layout xs) = set xs"
  by (simp add: set_iteration_def)

lemma set_iteration_Nil [simp]: "set_iteration layout xs = [] \<longleftrightarrow> xs = []"
  by (metis set_set_iteration set_empty)

lemma choices_of_subset: "set (choices_of e u) \<subseteq> set u"
  by (auto simp: choices_of_def split: option.splits)

lemma removeAll_nonempty: "distinct u \<Longrightarrow> length u > 1 \<Longrightarrow> removeAll e u \<noteq> []"
proof
  assume d: "distinct u" and l: "length u > 1" and r: "removeAll e u = []"
  from r have "set u \<subseteq> {e}" by (metis set_removeAll Diff_eq_empty_iff set_empty)
  with d have "card (set u) \<le> 1" by (metis card_mono finite.emptyI finite.insertI card.empty card_insert_if empty_iff One_nat_def)
  with d l show False by (simp add: distinct_card)
qed

lemma choices_of_nonempty: "distinct u \<Longrightarrow> u \<noteq> [] \<Longrightarrow> choices_of e u \<noteq> []"
  by (auto simp: choices_of_def removeAll_nonempty split: option.splits)

lemma nn_step_Inr:
  assumes "distinct u" "u \<noteq> []"
  shows "\<exists>x. py_min key (set_iteration layout (choices_of e u)) = Inr x
             \<and> x \<in> set (choices_of e u) \<and> x \<in> set u"
proof -
  have "set_iteration layout (choices_of e u) \<noteq> []"
    using assms by (simp add: choices_of_nonempty)
  then obtain x where x: "py_min key (set_iteration layout (choices_of e u)) = Inr x"
    using py_min_Inr by blast
  then have "x \<in> set (choices_of e u)"
    using py_min_mem by fastforce
  with x show ?thesis using choices_of_subset by blast
qed

lemma nn_loop_perm:
  "distinct u \<Longrightarrow> \<exists>res. nn_loop layout cost e u path cur = Inr res
        \<and> mset res = mset path + mset u \<and> take (length path) res = path"
proof (induction layout cost e u path cur rule: nn_loop.induct)
  case (1 layout cost e u path cur)
  show ?case
  proof (cases "u = []")
    case True
    then show ?thesis by (subst nn_loop.simps) simp
  next
    case False
    obtain x where x: "py_min (\<lambda>j. cost ! cur ! j) (set_iteration layout (choices_of e u)) = Inr x"
      and xu: "x \<in> set u"
      using nn_step_Inr [OF "1.prems" False] by blast
    have d: "distinct (removeAll x u)" using "1.prems" by (simp add: distinct_removeAll)
    from "1.IH" [OF False x xu d]
    obtain res where r: "nn_loop layout cost e (removeAll x u) (path @ [x]) x = Inr res"
      and m: "mset res = mset (path @ [x]) + mset (removeAll x u)"
      and t: "take (length (path @ [x])) res = path @ [x]" by blast
    have eq: "nn_loop layout cost e u path cur = Inr res"
      using False x xu r by (subst nn_loop.simps) simp
    have "mset (removeAll x u) = mset u - {#x#}"
      using "1.prems" by (simp add: distinct_remove1_removeAll [symmetric])
    with m xu have m': "mset res = mset path + mset u" by simp
    have "take (length path) res = take (length path) (take (length (path @ [x])) res)"
      by (simp add: min_def)
    also have "\<dots> = path" using t by simp
    finally show ?thesis using eq m' by blast
  qed
qed

lemma choices_of_keeps_end:
  "distinct u \<Longrightarrow> e \<in> set u \<Longrightarrow> length u > 1 \<Longrightarrow> e \<notin> set (choices_of (Some e) u)"
  by (simp add: choices_of_def)

lemma nn_loop_end_last:
  "distinct u \<Longrightarrow> e \<in> set u \<Longrightarrow> nn_loop layout cost (Some e) u path cur = Inr res
     \<Longrightarrow> last res = e"
proof (induction layout cost "Some e" u path cur rule: nn_loop.induct)
  case (1 layout cost u path cur)
  from "1.prems" have ne: "u \<noteq> []" by auto
  obtain x where x: "py_min (\<lambda>j. cost ! cur ! j) (set_iteration layout (choices_of (Some e) u)) = Inr x"
      and xc: "x \<in> set (choices_of (Some e) u)" and xu: "x \<in> set u"
    using nn_step_Inr [OF "1.prems"(1) ne] by blast
  have step: "nn_loop layout cost (Some e) (removeAll x u) (path @ [x]) x = Inr res"
    using "1.prems"(3) ne x xu by (subst (asm) nn_loop.simps) simp
  have d: "distinct (removeAll x u)" using "1.prems"(1) by (simp add: distinct_removeAll)
  show ?case
  proof (cases "length u > 1")
    case True
    then have "x \<noteq> e" using choices_of_keeps_end [OF "1.prems"(1,2)] xc by auto
    then have "e \<in> set (removeAll x u)" using "1.prems"(2) by simp
    from "1.hyps" [OF ne x xu d this step] show ?thesis .
  next
    case False
    with ne "1.prems"(2) have "u = [e]" by (cases u) auto
    with xu have "x = e" by simp
    with step \<open>u = [e]\<close> have "res = path @ [e]"
      by (subst (asm) nn_loop.simps) simp
    then show ?thesis by simp
  qed
qed

lemma clamp_index_less: "0 < n \<Longrightarrow> clamp_index n i < n"
  by (auto simp: clamp_index_def)

lemma clamp_index_id: "s < n \<Longrightarrow> clamp_index n (int s) = s"
  by (auto simp: clamp_index_def)

lemma mset_removeAll_upt: "s < n \<Longrightarrow> mset [s] + mset (removeAll s [0..<n]) = mset [0..<n]"
proof -
  assume "s < n"
  have "mset (removeAll s [0..<n]) = mset [0..<n] - {#s#}"
    by (simp add: distinct_remove1_removeAll [symmetric])
  then show ?thesis using \<open>s < n\<close> by simp
qed

lemma nearest_neighbor_path_perm:
  "\<exists>res. nearest_neighbor_path layout cost start e = Inr res
      \<and> mset res = mset [0..<length cost]
      \<and> (0 < length cost \<longrightarrow> hd res = clamp_index (length cost) start)"
proof (cases "length cost = 0")
  case True
  then show ?thesis by (simp add: nearest_neighbor_path_def)
next
  case False
  define n where "n = length cost"
  define s where "s = clamp_index n start"
  define e' where "e' = (case e of None \<Rightarrow> None | Some x \<Rightarrow>
                        if clamp_index n x = s then None else Some (clamp_index n x))"
  have sn: "s < n" using False by (simp add: s_def n_def clamp_index_less)
  have d: "distinct (removeAll s [0..<n])" by (simp add: distinct_removeAll)
  from nn_loop_perm [OF d, of layout cost e' "[s]" s]
  obtain res where r: "nn_loop layout cost e' (removeAll s [0..<n]) [s] s = Inr res"
    and m: "mset res = mset [s] + mset (removeAll s [0..<n])"
    and t: "take (length [s]) res = [s]" by blast
  have eq: "nearest_neighbor_path layout cost start e = Inr res"
    using False r unfolding nearest_neighbor_path_def Let_def n_def s_def e'_def by simp
  have h: "hd res = s" using t by (cases res) auto
  show ?thesis using eq m h mset_removeAll_upt [OF sn] False by (simp add: n_def s_def)
qed

lemma nearest_neighbor_path_end:
  assumes "0 < length cost"
      and "clamp_index (length cost) e \<noteq> clamp_index (length cost) start"
      and "nearest_neighbor_path layout cost start (Some e) = Inr res"
  shows "last res = clamp_index (length cost) e"
proof -
  define n where "n = length cost"
  define s where "s = clamp_index n start"
  define e' where "e' = clamp_index n e"
  have r: "nn_loop layout cost (Some e') (removeAll s [0..<n]) [s] s = Inr res"
    using assms unfolding nearest_neighbor_path_def Let_def n_def s_def e'_def by simp
  have "e' < n" using assms(1) by (simp add: e'_def n_def clamp_index_less)
  then have "e' \<in> set (removeAll s [0..<n])" using assms(2) by (simp add: e'_def s_def n_def)
  from nn_loop_end_last [OF _ this r] show ?thesis by (simp add: distinct_removeAll e'_def n_def)
qed

lemma reverse_segment_split:
  "i \<le> k \<Longrightarrow> take i best @ take (k + 1 - i) (drop i best) @ drop (k + 1) best = best"
proof -
  assume ik: "i \<le> k"
  have "drop (k + 1) best = drop (k + 1 - i) (drop i best)" using ik by simp
  then have "take (k + 1 - i) (drop i best) @ drop (k + 1) best = drop i best"
    by (simp only: append_take_drop_id)
  then show ?thesis by (simp only: append_take_drop_id)
qed

lemma reverse_segment_mset: "i \<le> k \<Longrightarrow> mset (reverse_segment best i k) = mset best"
proof -
  assume ik: "i \<le> k"
  have "mset (reverse_segment best i k)
      = mset (take i best @ take (k + 1 - i) (drop i best) @ drop (k + 1) best)"
    by (simp add: reverse_segment_def)
  also have "\<dots> = mset best"
    by (rule arg_cong [where f = mset]) (rule reverse_segment_split [OF ik])
  finally show ?thesis .
qed

lemma reverse_segment_length: "i \<le> k \<Longrightarrow> length (reverse_segment best i k) = length best"
  using reverse_segment_mset [of i k best] by (metis size_mset)

lemma reverse_segment_hd: "0 < i \<Longrightarrow> best \<noteq> [] \<Longrightarrow> hd (reverse_segment best i k) = hd best"
  by (cases best) (auto simp: reverse_segment_def take_Cons')

lemma reverse_segment_last:
  "k + 1 < length best \<Longrightarrow> last (reverse_segment best i k) = last best"
  by (simp add: reverse_segment_def last_drop)

lemma scan_k_Some:
  "scan_k cost best bc i ks = Some (c, cc) \<Longrightarrow>
     \<exists>k \<in> set ks. i < k \<and> c = reverse_segment best i k \<and> cc = path_cost cost c
        \<and> cc + 1 / 10 ^ 9 < bc"
  by (induction ks) (auto simp: Let_def split: if_splits)

lemma scan_i_Some:
  "scan_i cost best bc n is = Some (c, cc) \<Longrightarrow>
     \<exists>i \<in> set is. \<exists>k. i < k \<and> k < n - 1 \<and> c = reverse_segment best i k
        \<and> cc = path_cost cost c \<and> cc + 1 / 10 ^ 9 < bc"
proof (induction "is")
  case Nil
  then show ?case by simp
next
  case (Cons i "is")
  show ?case
  proof (cases "scan_k cost best bc i [i + 1..<n - 1]")
    case None
    with Cons show ?thesis by auto
  next
    case (Some found)
    with Cons.prems have "scan_k cost best bc i [i + 1..<n - 1] = Some (c, cc)" by simp
    from scan_k_Some [OF this]
    obtain k where "k \<in> set [i + 1..<n - 1]" "i < k" "c = reverse_segment best i k"
      "cc = path_cost cost c" "cc + 1 / 10 ^ 9 < bc" by blast
    then have "i < k \<and> k < n - 1 \<and> c = reverse_segment best i k
        \<and> cc = path_cost cost c \<and> cc + 1 / 10 ^ 9 < bc" by simp
    then show ?thesis by (intro bexI [of _ i] exI [of _ k]) auto
  qed
qed

lemma two_opt_loop_invariant:
  assumes "Q best" and "bc = path_cost cost best"
    and step: "\<And>b i k. Q b \<Longrightarrow> start_i \<le> i \<Longrightarrow> i < k \<Longrightarrow> k < n - 1 \<Longrightarrow>
                 path_cost cost (reverse_segment b i k) + 1 / 10 ^ 9 < path_cost cost b \<Longrightarrow>
                 Q (reverse_segment b i k)"
  shows "Q (two_opt_loop cost n start_i max_iter best bc iters)"
  using assms
proof (induction cost n start_i max_iter best bc iters rule: two_opt_loop.induct)
  case (1 cost n start_i max_iter best bc iters)
  show ?case
  proof (cases "iters < max_iter")
    case False
    then show ?thesis using "1.prems" by (subst two_opt_loop.simps) simp
  next
    case True
    show ?thesis
    proof (cases "scan_i cost best bc n [start_i..<n - 2]")
      case None
      then show ?thesis using True "1.prems" by (subst two_opt_loop.simps) simp
    next
      case (Some found)
      obtain c cc where f: "found = (c, cc)" by (cases found)
      from scan_i_Some [OF Some [unfolded f]]
      obtain i k where ik: "start_i \<le> i" "i < k" "k < n - 1" "c = reverse_segment best i k"
        "cc = path_cost cost c" "cc + 1 / 10 ^ 9 < bc" by auto
      have "Q c" using "1.prems"(3) [OF "1.prems"(1) ik(1,2,3)] ik(4,5,6) "1.prems"(2) by simp
      from "1.IH" [OF True Some f [symmetric] this ik(5) "1.prems"(3)]
      show ?thesis using True Some f by (subst two_opt_loop.simps) simp
    qed
  qed
qed

lemma two_opt_improve_mset: "mset (two_opt_improve cost path fs mi) = mset path"
proof (cases "length path \<le> 3")
  case True
  then show ?thesis by (simp add: two_opt_improve_def)
next
  case False
  have "mset (two_opt_loop cost (length path) (if fs then 1 else 0) mi path (path_cost cost path) 0)
          = mset path"
    by (rule two_opt_loop_invariant [where Q = "\<lambda>b. mset b = mset path"])
       (simp_all add: reverse_segment_mset)
  with False show ?thesis by (simp add: two_opt_improve_def)
qed

lemma two_opt_improve_cost:
  "path_cost cost (two_opt_improve cost path fs mi) \<le> path_cost cost path"
proof (cases "length path \<le> 3")
  case True
  then show ?thesis by (simp add: two_opt_improve_def)
next
  case False
  have "path_cost cost (two_opt_loop cost (length path) (if fs then 1 else 0) mi path
          (path_cost cost path) 0) \<le> path_cost cost path"
    by (rule two_opt_loop_invariant [where Q = "\<lambda>b. path_cost cost b \<le> path_cost cost path"])
       auto
  with False show ?thesis by (simp add: two_opt_improve_def)
qed

lemma two_opt_improve_hd:
  "hd (two_opt_improve cost path True mi) = hd path"
proof (cases "length path \<le> 3")
  case True
  then show ?thesis by (simp add: two_opt_improve_def)
next
  case False
  have "length (two_opt_loop cost (length path) 1 mi path (path_cost cost path) 0) = length path
      \<and> hd (two_opt_loop cost (length path) 1 mi path (path_cost cost path) 0) = hd path"
  proof (rule two_opt_loop_invariant [where Q = "\<lambda>b. length b = length path \<and> hd b = hd path"])
    fix b and i k :: nat
    assume "length b = length path \<and> hd b = hd path" "1 \<le> i" "i < k"
    moreover from this False have "b \<noteq> []" by auto
    ultimately show "length (reverse_segment b i k) = length path
        \<and> hd (reverse_segment b i k) = hd path"
      by (simp add: reverse_segment_length reverse_segment_hd)
  qed simp_all
  with False show ?thesis by (simp add: two_opt_improve_def)
qed

lemma two_opt_improve_last:
  "last (two_opt_improve cost path fs mi) = last path"
proof (cases "length path \<le> 3")
  case True
  then show ?thesis by (simp add: two_opt_improve_def)
next
  case False
  define s where "s = (if fs then 1 else 0::nat)"
  have "length (two_opt_loop cost (length path) s mi path (path_cost cost path) 0) = length path
      \<and> last (two_opt_loop cost (length path) s mi path (path_cost cost path) 0) = last path"
  proof (rule two_opt_loop_invariant [where Q = "\<lambda>b. length b = length path \<and> last b = last path"])
    fix b and i k :: nat
    assume "length b = length path \<and> last b = last path" "i < k" "k < length path - 1"
    then show "length (reverse_segment b i k) = length path
        \<and> last (reverse_segment b i k) = last path"
      by (simp add: reverse_segment_length reverse_segment_last)
  qed simp_all
  with False show ?thesis by (simp add: two_opt_improve_def s_def)
qed

lemma validated_length:
  "to_cost_matrix m = Inr arr \<Longrightarrow> validate_full_matrix arr = Inr u \<Longrightarrow>
     length (cost_values arr) = length m"
  by (cases m) (auto simp: to_cost_matrix_def split: if_splits)

lemma valid_matrix_validated:
  assumes "valid_matrix m"
  shows "\<exists>arr. to_cost_matrix m = Inr arr \<and> validate_full_matrix arr = Inr ()"
proof -
  from assms obtain row rows where m: "m = row # rows" by (cases m) (auto simp: valid_matrix_def)
  have len: "\<forall>r \<in> set m. length r = length m" and fin: "\<forall>r \<in> set m. \<forall>c \<in> set r. c \<noteq> None"
    using assms by (auto simp: valid_matrix_def list_all_iff)
  have h: "list_all (\<lambda>r. length r = length row) rows"
    using len m by (auto simp: list_all_iff)
  have r: "length row = length m" using len m by auto
  have "\<not> list_ex (list_ex isinf)
          (map (map (\<lambda>c. case c of None \<Rightarrow> PosInf | Some x \<Rightarrow> Num x)) m)"
    using fin by (fastforce simp: list_ex_iff isinf_def split: option.splits)
  then show ?thesis using h r m by (simp add: to_cost_matrix_def)
qed

lemma optimize_unfold:
  "optimize_order_from_durations layout m fs fe =
     (case to_cost_matrix m of
        Inl err \<Rightarrow> Inl err
      | Inr arr \<Rightarrow>
          (case validate_full_matrix arr of
             Inl err \<Rightarrow> Inl err
           | Inr u \<Rightarrow> optimize_core layout (cost_values arr) fs fe))"
  unfolding optimize_order_from_durations_def optimize_core_def start_choice_def end_choice_def
    Let_def
  by (rule refl)

lemma start_choice_fixed: "start_choice cost (Some s) fe = Inr (clamp_index (length cost) s)"
  by (simp add: start_choice_def Let_def)

lemma start_choice_avoids_end:
  assumes "start_choice cost None (Some e) = Inr st" and "0 < length cost"
  shows "st \<noteq> clamp_index (length cost) e \<and> st < length cost"
proof -
  from assms have "py_min (\<lambda>i. row_sums cost ! i)
      (filter (\<lambda>i. i \<noteq> clamp_index (length cost) e) [0..<length cost]) = Inr st"
    by (simp add: start_choice_def Let_def)
  from py_min_mem [OF this] show ?thesis by simp
qed

lemma start_choice_total:
  assumes "1 < length cost"
  shows "\<exists>st. start_choice cost fs fe = Inr st"
proof (cases fs)
  case (Some s)
  then show ?thesis by (simp add: start_choice_def Let_def)
next
  case None
  show ?thesis
  proof (cases fe)
    case None
    with \<open>fs = None\<close> assms show ?thesis by (simp add: start_choice_def Let_def)
  next
    case (Some e)
    define e' where "e' = clamp_index (length cost) e"
    have "(if e' = 0 then 1 else 0) \<in> set (filter (\<lambda>i. i \<noteq> e') [0..<length cost])"
      using assms by auto
    then have "filter (\<lambda>i. i \<noteq> e') [0..<length cost] \<noteq> []" by (metis empty_iff empty_set)
    from py_min_Inr [OF this] show ?thesis
      using \<open>fs = None\<close> Some assms by (simp add: start_choice_def e'_def Let_def)
  qed
qed

lemma optimize_core_perm:
  "\<exists>r. optimize_core layout cost fs fe = Inr r \<and> mset (order r) = mset [0..<length cost]"
proof (cases "length cost \<le> 1")
  case True
  then show ?thesis by (simp add: optimize_core_def)
next
  case False
  then obtain st where st: "start_choice cost fs fe = Inr st"
    using start_choice_total [of cost fs fe] by auto
  obtain nn where nn: "nearest_neighbor_path layout cost (int st) (end_choice (length cost) st fe) = Inr nn"
    and m: "mset nn = mset [0..<length cost]"
    using nearest_neighbor_path_perm by blast
  show ?thesis using False st nn m by (simp add: optimize_core_def two_opt_improve_mset)
qed

lemma optimize_core_hd:
  assumes "optimize_core layout cost (Some s) fe = Inr r" and "0 < length cost"
  shows "hd (order r) = clamp_index (length cost) s \<and> order r \<noteq> []"
proof (cases "length cost \<le> 1")
  case True
  with assms have "length cost = 1" by (cases cost) auto
  with assms show ?thesis by (auto simp: optimize_core_def clamp_index_def)
next
  case False
  define st where "st = clamp_index (length cost) s"
  have lt: "st < length cost" using assms(2) by (simp add: st_def clamp_index_less)
  obtain nn where nn: "nearest_neighbor_path layout cost (int st) (end_choice (length cost) st fe) = Inr nn"
    and m: "mset nn = mset [0..<length cost]"
    and h: "0 < length cost \<longrightarrow> hd nn = clamp_index (length cost) (int st)"
    using nearest_neighbor_path_perm by blast
  have r: "order r = two_opt_improve cost nn True 2000"
    using assms(1) False nn by (auto simp: optimize_core_def start_choice_fixed st_def)
  have "nn \<noteq> []" using m assms(2) by (metis length_greater_0_conv length_upt size_mset diff_zero)
  then have "order r \<noteq> []" using r two_opt_improve_mset [of cost nn True 2000] by (metis mset_zero_iff)
  moreover have "hd (order r) = st"
    using r h assms(2) lt by (simp add: two_opt_improve_hd clamp_index_id)
  ultimately show ?thesis by (simp add: st_def)
qed

lemma optimize_core_last:
  assumes "optimize_core layout cost fs (Some e) = Inr r" and "1 < length cost"
    and "\<And>s. fs = Some s \<Longrightarrow> clamp_index (length cost) s \<noteq> clamp_index (length cost) e"
  shows "last (order r) = clamp_index (length cost) e"
proof -
  define n where "n = length cost"
  define e' where "e' = clamp_index n e"
  have pos: "0 < length cost" using assms(2) by linarith
  note lt = clamp_index_less [OF pos]
  from assms(1,2) obtain st where st: "start_choice cost fs (Some e) = Inr st"
    by (auto simp: optimize_core_def split: sum.splits)
  have stp: "st \<noteq> e' \<and> st < n"
  proof (cases fs)
    case None
    from start_choice_avoids_end [OF st [unfolded None] pos]
    show ?thesis by (simp add: e'_def n_def)
  next
    case (Some s)
    with st have "st = clamp_index n s" by (simp add: start_choice_fixed n_def)
    with assms(3) [OF Some] lt [of s] show ?thesis by (simp add: e'_def n_def)
  qed
  have e'n: "e' < n" using lt [of e] by (simp add: e'_def n_def)
  have ec: "end_choice n st (Some e) = Some (int e')"
    using stp by (auto simp: end_choice_def e'_def)
  from assms(1,2) st ec obtain nn where
    nn: "nearest_neighbor_path layout cost (int st) (Some (int e')) = Inr nn"
    and r: "order r = two_opt_improve cost nn (fs \<noteq> None) 2000"
    by (auto simp: optimize_core_def n_def split: sum.splits)
  have "last nn = clamp_index (length cost) (int e')"
    using nearest_neighbor_path_end [OF pos _ nn] stp e'n
    by (simp add: clamp_index_id n_def)
  then show ?thesis using r e'n by (simp add: two_opt_improve_last clamp_index_id n_def e'_def)
qed

subsection \<open>Claim C1: the optimizer returns a permutation\<close>

text \<open>
  Claim C1. For every square \<open>N \<times> N\<close> cost matrix with no missing entry and any start and
  end anchor (given or absent), the list returned by \<open>optimize_order_from_durations\<close>
  (nearest-neighbour construction followed by 2-Opt) is a permutation of the indices
  \<open>0..N-1\<close>: no index is repeated and none is left out. The first conjunct says so for every
  call that returns, for every iteration order of sets; the second says that the call
  returns for every valid matrix with \<open>N \<ge> 1\<close>.
\<close>

theorem optimizer_returns_permutation:
  "(\<forall>r. optimize_order_from_durations layout m fs fe = Inr r \<longrightarrow>
        distinct (order r) \<and> set (order r) = {0..<length m})
   \<and> (valid_matrix m \<longrightarrow> (\<exists>r. optimize_order_from_durations layout m fs fe = Inr r))"
proof (intro conjI allI impI)
  fix r assume r: "optimize_order_from_durations layout m fs fe = Inr r"
  then obtain arr u where arr: "to_cost_matrix m = Inr arr" and u: "validate_full_matrix arr = Inr u"
    and c: "optimize_core layout (cost_values arr) fs fe = Inr r"
    by (auto simp: optimize_unfold split: sum.splits)
  have "mset (order r) = mset [0..<length (cost_values arr)]"
    using optimize_core_perm [of layout "cost_values arr" fs fe] c by auto
  then have m: "mset (order r) = mset [0..<length m]"
    using validated_length [OF arr u] by simp
  have "distinct (order r)" using m by (metis distinct_upt mset_eq_imp_distinct_iff)
  moreover have "set (order r) = {0..<length m}" using m by (metis mset_eq_setD set_upt)
  ultimately show "distinct (order r)" and "set (order r) = {0..<length m}" by simp_all
next
  assume "valid_matrix m"
  then obtain arr where "to_cost_matrix m = Inr arr" "validate_full_matrix arr = Inr ()"
    using valid_matrix_validated by blast
  then show "\<exists>r. optimize_order_from_durations layout m fs fe = Inr r"
    using optimize_core_perm [of layout "cost_values arr" fs fe]
    by (auto simp: optimize_unfold)
qed

theorem optimizer_returns_permutation_witness:
  "valid_matrix [[Some 0, Some 10, Some 15, Some 20], [Some 10, Some 0, Some 35, Some 25],
                 [Some 15, Some 35, Some 0, Some 30], [Some 20, Some 25, Some 30, Some 0]]
   \<and> (\<exists>r. optimize_order_from_durations index_order
              [[Some 0, Some 10, Some 15, Some 20], [Some 10, Some 0, Some 35, Some 25],
               [Some 15, Some 35, Some 0, Some 30], [Some 20, Some 25, Some 30, Some 0]]
              None None = Inr r
          \<and> order r = [1, 0, 3, 2] \<and> distinct (order r) \<and> set (order r) = {0..<4})"
proof -
  let ?m = "[[Some 0, Some 10, Some 15, Some 20], [Some 10, Some 0, Some 35, Some 25],
             [Some 15, Some 35, Some 0, Some 30], [Some 20, Some 25, Some 30, Some (0::real)]]"
  have e: "optimize_order_from_durations index_order ?m None None
             = Inr \<lparr>order = [1, 0, 3, 2], total_cost = 60\<rparr>"
    by code_simp
  have v: "valid_matrix ?m" by (simp add: valid_matrix_def)
  from optimizer_returns_permutation [of index_order ?m None None] e
  have "distinct (order \<lparr>order = [1, 0, 3, 2], total_cost = 60\<rparr>)
      \<and> set (order \<lparr>order = [1, 0, 3, 2], total_cost = 60\<rparr>) = {0..<length ?m}"
    by blast
  then show ?thesis using e v by (simp add: eval_nat_numeral)
qed

lemma optimize_hd:
  assumes "optimize_order_from_durations layout m (Some s) fe = Inr r"
  shows "hd (order r) = clamp_index (length m) s \<and> order r \<noteq> []"
proof -
  from assms obtain arr u where arr: "to_cost_matrix m = Inr arr"
    and u: "validate_full_matrix arr = Inr u"
    and c: "optimize_core layout (cost_values arr) (Some s) fe = Inr r"
    by (auto simp: optimize_unfold split: sum.splits)
  have n: "length (cost_values arr) = length m" by (rule validated_length [OF arr u])
  have "m \<noteq> []" using arr u by (auto simp: to_cost_matrix_def)
  then have "0 < length (cost_values arr)" using n by simp
  from optimize_core_hd [OF c this] show ?thesis by (simp add: n)
qed

lemma optimize_last:
  assumes "optimize_order_from_durations layout m fs (Some e) = Inr r" and "1 < length m"
    and "\<And>s. fs = Some s \<Longrightarrow> clamp_index (length m) s \<noteq> clamp_index (length m) e"
  shows "last (order r) = clamp_index (length m) e"
proof -
  from assms obtain arr u where arr: "to_cost_matrix m = Inr arr"
    and u: "validate_full_matrix arr = Inr u"
    and c: "optimize_core layout (cost_values arr) fs (Some e) = Inr r"
    by (auto simp: optimize_unfold split: sum.splits)
  have n: "length (cost_values arr) = length m" by (rule validated_length [OF arr u])
  show ?thesis using optimize_core_last [OF c] assms(2,3) by (simp add: n)
qed

lemma optimize_total:
  "valid_matrix m \<Longrightarrow> \<exists>r. optimize_order_from_durations layout m fs fe = Inr r"
proof -
  assume "valid_matrix m"
  then obtain arr where "to_cost_matrix m = Inr arr" "validate_full_matrix arr = Inr ()"
    using valid_matrix_validated by blast
  then show ?thesis
    using optimize_core_perm [of layout "cost_values arr" fs fe] by (auto simp: optimize_unfold)
qed

lemma if_chain_taken:
  "a \<or> b \<or> c \<Longrightarrow> (if a then x else if b then x else if c then x else y) = x"
  by auto

lemma if_chain_passed:
  "\<not> (a \<or> b \<or> c) \<Longrightarrow> (if a then x else if b then x else if c then x else y) = y"
  by auto

lemma soft_inner_skip:
  "soft_skip hs he s e \<Longrightarrow>
     soft_inner layout d hs he s (e # es) acc = soft_inner layout d hs he s es acc"
  unfolding soft_skip_def hard_or_def
  by (simp only: soft_inner.simps Let_def) (erule if_chain_taken)

lemma soft_inner_run:
  "\<not> soft_skip hs he s e \<Longrightarrow>
     soft_inner layout d hs he s (e # es) acc =
       (case optimize_order_from_durations layout d
               (map_option int (hard_or hs s)) (map_option int (hard_or he e)) of
          Inl err \<Rightarrow> Inl err
        | Inr cand \<Rightarrow> soft_inner layout d hs he s es (better acc cand))"
  unfolding soft_skip_def hard_or_def better_def
  by (simp only: soft_inner.simps Let_def) (erule if_chain_passed)

lemma soft_inner_invariant:
  assumes "soft_inner layout d hs he s es acc = Inr res"
    and "\<And>b. acc = Some b \<Longrightarrow> P b"
    and "\<And>x fe c. optimize_order_from_durations layout d
              (map_option int (hard_or hs x)) (map_option int fe) = Inr c \<Longrightarrow> P c"
  shows "res = Some b \<Longrightarrow> P b"
  using assms(1,2)
proof (induction es arbitrary: acc)
  case Nil
  then show ?case by simp
next
  case (Cons e es)
  show ?case
  proof (cases "soft_skip hs he s e")
    case True
    with Cons.prems(2) have "soft_inner layout d hs he s es acc = Inr res"
      by (simp only: soft_inner_skip [OF True])
    from Cons.IH [OF Cons.prems(1) this Cons.prems(3)] show ?thesis .
  next
    case False
    from Cons.prems(2) obtain cand where
      cand: "optimize_order_from_durations layout d
               (map_option int (hard_or hs s)) (map_option int (hard_or he e)) = Inr cand"
      and rec: "soft_inner layout d hs he s es (better acc cand) = Inr res"
      unfolding soft_inner_run [OF False] by (auto split: sum.splits)
    have "P cand" by (rule assms(3) [OF cand])
    then have "\<And>b. better acc cand = Some b \<Longrightarrow> P b"
      using Cons.prems(3) by (auto simp: better_def split: option.splits if_splits)
    from Cons.IH [OF Cons.prems(1) rec this] show ?thesis .
  qed
qed

lemma soft_search_invariant:
  assumes "soft_search layout d hs he ss es acc = Inr res"
    and "\<And>b. acc = Some b \<Longrightarrow> P b"
    and "\<And>x fe c. optimize_order_from_durations layout d
              (map_option int (hard_or hs x)) (map_option int fe) = Inr c \<Longrightarrow> P c"
  shows "res = Some b \<Longrightarrow> P b"
  using assms(1,2)
proof (induction ss arbitrary: acc)
  case Nil
  then show ?case by simp
next
  case (Cons s ss)
  from Cons.prems(2) obtain mid where mid: "soft_inner layout d hs he s es acc = Inr mid"
    and rec: "soft_search layout d hs he ss es mid = Inr res"
    by (auto split: sum.splits)
  have "\<And>b. mid = Some b \<Longrightarrow> P b"
    by (rule soft_inner_invariant [where P = P, OF mid Cons.prems(3) assms(3)])
  from Cons.IH [OF Cons.prems(1) rec this] show ?case .
qed

lemma soft_inner_total:
  assumes "valid_matrix d"
  shows "\<exists>res. soft_inner layout d hs he s es acc = Inr res"
proof (induction es arbitrary: acc)
  case Nil
  then show ?case by simp
next
  case (Cons e es)
  show ?case
  proof (cases "soft_skip hs he s e")
    case True
    show ?thesis using Cons.IH unfolding soft_inner_skip [OF True] .
  next
    case False
    obtain cand where "optimize_order_from_durations layout d
           (map_option int (hard_or hs s)) (map_option int (hard_or he e)) = Inr cand"
      using optimize_total [OF assms] by blast
    then show ?thesis using Cons.IH unfolding soft_inner_run [OF False] by simp
  qed
qed

lemma soft_search_total:
  assumes "valid_matrix d"
  shows "\<exists>res. soft_search layout d hs he ss es acc = Inr res"
proof (induction ss arbitrary: acc)
  case Nil
  then show ?case by simp
next
  case (Cons s ss)
  obtain mid where "soft_inner layout d hs he s es acc = Inr mid"
    using soft_inner_total [OF assms] by blast
  then show ?case using Cons.IH [of mid] by simp
qed

lemma select_route_total:
  assumes "valid_matrix d"
  shows "\<exists>r. select_route layout d hs he sc ec = Inr r"
proof -
  obtain base where "optimize_order_from_durations layout d (map_option int hs) (map_option int he) = Inr base"
    using optimize_total [OF assms] by blast
  moreover obtain bs where "soft_search layout d hs he (None # map Some sc) (None # map Some ec) None = Inr bs"
    using soft_search_total [OF assms] by blast
  ultimately show ?thesis by (simp add: select_route_def)
qed

lemma optimize_seed:
  assumes "optimize_order_from_durations layout m fs fe = Inr r" and "1 < length m"
  shows "\<exists>cost start e nn. nearest_neighbor_path layout cost start e = Inr nn
           \<and> order r = two_opt_improve cost nn (fs \<noteq> None) 2000
           \<and> total_cost r = path_cost cost (order r)"
proof -
  from assms obtain arr u where arr: "to_cost_matrix m = Inr arr"
    and u: "validate_full_matrix arr = Inr u"
    and c: "optimize_core layout (cost_values arr) fs fe = Inr r"
    by (auto simp: optimize_unfold split: sum.splits)
  have n: "length (cost_values arr) = length m" by (rule validated_length [OF arr u])
  from c assms(2) n obtain st nn where
    "nearest_neighbor_path layout (cost_values arr) (int st)
        (end_choice (length (cost_values arr)) st fe) = Inr nn"
    "r = \<lparr>order = two_opt_improve (cost_values arr) nn (fs \<noteq> None) 2000,
          total_cost = path_cost (cost_values arr)
             (two_opt_improve (cost_values arr) nn (fs \<noteq> None) 2000)\<rparr>"
    by (auto simp: optimize_core_def split: sum.splits)
  then show ?thesis
    by (intro exI [of _ "cost_values arr"] exI [of _ "int st"] exI [of _ nn]
          exI [of _ "end_choice (length (cost_values arr)) st fe"]) simp
qed

subsection \<open>Claim C2: 2-Opt never worsens the path\<close>

text \<open>
  Claim C2. For every cost matrix and every input path, the path returned by
  \<open>two_opt_improve\<close> has a total open-path cost (the sum of its consecutive edge costs) that
  is at most the cost of the input path; in particular the route of the optimizer costs at
  most as much as the nearest-neighbour seed that 2-Opt refined.
\<close>

theorem two_opt_never_worsens:
  "path_cost cost (two_opt_improve cost path fixed_start max_iter) \<le> path_cost cost path
   \<and> (\<forall>r. optimize_order_from_durations layout m fs fe = Inr r \<longrightarrow> 1 < length m \<longrightarrow>
         (\<exists>c start e nn. nearest_neighbor_path layout c start e = Inr nn
            \<and> order r = two_opt_improve c nn (fs \<noteq> None) 2000
            \<and> total_cost r = path_cost c (order r)
            \<and> total_cost r \<le> path_cost c nn))"
proof (intro conjI allI impI)
  show "path_cost cost (two_opt_improve cost path fixed_start max_iter) \<le> path_cost cost path"
    by (rule two_opt_improve_cost)
next
  fix r assume "optimize_order_from_durations layout m fs fe = Inr r" "1 < length m"
  from optimize_seed [OF this] obtain c start e nn where
    h: "nearest_neighbor_path layout c start e = Inr nn"
       "order r = two_opt_improve c nn (fs \<noteq> None) 2000"
       "total_cost r = path_cost c (order r)" by blast
  then have "total_cost r \<le> path_cost c nn" by (simp add: two_opt_improve_cost)
  with h show "\<exists>c start e nn. nearest_neighbor_path layout c start e = Inr nn
            \<and> order r = two_opt_improve c nn (fs \<noteq> None) 2000
            \<and> total_cost r = path_cost c (order r)
            \<and> total_cost r \<le> path_cost c nn" by blast
qed

theorem two_opt_never_worsens_witness:
  "two_opt_improve scenario_cost [0, 1, 2, 3] False 2000 = [2, 0, 1, 3]
   \<and> path_cost scenario_cost [2, 0, 1, 3] = 50 \<and> path_cost scenario_cost [0, 1, 2, 3] = 75
   \<and> path_cost scenario_cost [2, 0, 1, 3] \<le> path_cost scenario_cost [0, 1, 2, 3]
   \<and> (\<exists>r c start e nn.
         optimize_order_from_durations index_order scenario_durations None None = Inr r
       \<and> nearest_neighbor_path index_order c start e = Inr nn
       \<and> order r = two_opt_improve c nn False 2000
       \<and> total_cost r \<le> path_cost c nn)"
proof -
  have e1: "two_opt_improve scenario_cost [0, 1, 2, 3] False 2000 = [2, 0, 1, 3]" by code_simp
  have e2: "path_cost scenario_cost [2, 0, 1, 3] = 50" by code_simp
  have e3: "path_cost scenario_cost [0, 1, 2, 3] = 75" by code_simp
  have e4: "optimize_order_from_durations index_order scenario_durations None None
              = Inr \<lparr>order = [1, 0, 3, 2], total_cost = 60\<rparr>" by code_simp
  have l: "1 < length scenario_durations" by (simp add: scenario_durations_def)
  from two_opt_never_worsens [of scenario_cost "[0, 1, 2, 3]" False 2000
         index_order scenario_durations None None] e1 e4 l
  have "path_cost scenario_cost [2, 0, 1, 3] \<le> path_cost scenario_cost [0, 1, 2, 3]
      \<and> (\<exists>c start e nn. nearest_neighbor_path index_order c start e = Inr nn
            \<and> order \<lparr>order = [1, 0, 3, 2], total_cost = 60\<rparr> = two_opt_improve c nn False 2000
            \<and> total_cost \<lparr>order = [1, 0, 3, 2], total_cost = 60::real\<rparr> \<le> path_cost c nn)"
    by auto
  then show ?thesis using e1 e2 e3 e4 by auto
qed

lemma accept_soft_cases:
  "(best_soft = Some (accept_soft base best_soft) \<and> 0 < total_cost base
      \<and> total_cost (accept_soft base best_soft) \<le> total_cost base * (1 + 12 / 100))
   \<or> accept_soft base best_soft = base"
  by (auto simp: accept_soft_def split: option.splits)

subsection \<open>Claim C3: acceptance of a soft-preference route\<close>

text \<open>
  Claim C3. Whenever the selector returns the soft-preference candidate \<open>best_soft\<close>, its
  total cost is at most 1.12 times the cost of the baseline route \<open>base\<close> computed from the
  hard anchors only; in every other case, and whenever the cost of \<open>base\<close> is zero, the
  returned route is \<open>base\<close>. The selector returns a route for every valid matrix.
\<close>

theorem soft_route_within_bound:
  "(\<forall>result. select_route layout d hs he sc ec = Inr result \<longrightarrow>
      (\<exists>base best_soft.
          optimize_order_from_durations layout d (map_option int hs) (map_option int he) = Inr base
        \<and> soft_search layout d hs he (None # map Some sc) (None # map Some ec) None = Inr best_soft
        \<and> ((best_soft = Some result \<and> total_cost result \<le> 112 / 100 * total_cost base)
             \<or> result = base)
        \<and> (total_cost base = 0 \<longrightarrow> result = base)))
   \<and> (valid_matrix d \<longrightarrow> (\<exists>result. select_route layout d hs he sc ec = Inr result))"
proof (intro conjI allI impI)
  fix result assume "select_route layout d hs he sc ec = Inr result"
  then obtain base best_soft where
    b: "optimize_order_from_durations layout d (map_option int hs) (map_option int he) = Inr base"
    and s: "soft_search layout d hs he (None # map Some sc) (None # map Some ec) None = Inr best_soft"
    and r: "result = accept_soft base best_soft"
    by (auto simp: select_route_def split: sum.splits)
  have "(best_soft = Some result \<and> total_cost result \<le> 112 / 100 * total_cost base)
          \<or> result = base"
    using accept_soft_cases [of best_soft base] r by auto
  moreover have "total_cost base = 0 \<longrightarrow> result = base"
    using r by (simp add: accept_soft_def split: option.splits)
  ultimately show "\<exists>base best_soft.
          optimize_order_from_durations layout d (map_option int hs) (map_option int he) = Inr base
        \<and> soft_search layout d hs he (None # map Some sc) (None # map Some ec) None = Inr best_soft
        \<and> ((best_soft = Some result \<and> total_cost result \<le> 112 / 100 * total_cost base)
             \<or> result = base)
        \<and> (total_cost base = 0 \<longrightarrow> result = base)"
    using b s by blast
next
  assume "valid_matrix d"
  then show "\<exists>result. select_route layout d hs he sc ec = Inr result"
    by (rule select_route_total)
qed

theorem soft_route_within_bound_witness:
  "valid_matrix scenario_durations
   \<and> optimize_order_from_durations index_order scenario_durations None None
       = Inr \<lparr>order = [1, 0, 3, 2], total_cost = 60\<rparr>
   \<and> select_route index_order scenario_durations None None [2] []
       = Inr \<lparr>order = [2, 0, 1, 3], total_cost = 50\<rparr>
   \<and> soft_search index_order scenario_durations None None [None, Some 2] [None] None
       = Inr (Some \<lparr>order = [2, 0, 1, 3], total_cost = 50\<rparr>)
   \<and> total_cost \<lparr>order = [2, 0, 1, 3], total_cost = 50::real\<rparr>
       \<le> 112 / 100 * total_cost \<lparr>order = [1, 0, 3, 2], total_cost = 60::real\<rparr>"
proof -
  have v: "valid_matrix scenario_durations"
    by (simp add: valid_matrix_def scenario_durations_def)
  have b: "optimize_order_from_durations index_order scenario_durations None None
             = Inr \<lparr>order = [1, 0, 3, 2], total_cost = 60\<rparr>" by code_simp
  have r: "select_route index_order scenario_durations None None [2] []
             = Inr \<lparr>order = [2, 0, 1, 3], total_cost = 50\<rparr>" by code_simp
  have s: "soft_search index_order scenario_durations None None [None, Some 2] [None] None
             = Inr (Some \<lparr>order = [2, 0, 1, 3], total_cost = 50\<rparr>)" by code_simp
  from soft_route_within_bound [of index_order scenario_durations None None "[2]" "[]"] r b s
  have "total_cost \<lparr>order = [2, 0, 1, 3], total_cost = 50::real\<rparr>
          \<le> 112 / 100 * total_cost \<lparr>order = [1, 0, 3, 2], total_cost = 60::real\<rparr>"
    by auto
  with v b r s show ?thesis by simp
qed

lemma select_route_invariant:
  assumes "select_route layout d hs he sc ec = Inr r"
    and "\<And>x fe c. optimize_order_from_durations layout d
              (map_option int (hard_or hs x)) (map_option int fe) = Inr c \<Longrightarrow> P c"
  shows "P r"
proof -
  from assms(1) obtain base best_soft where
    b: "optimize_order_from_durations layout d (map_option int hs) (map_option int he) = Inr base"
    and s: "soft_search layout d hs he (None # map Some sc) (None # map Some ec) None = Inr best_soft"
    and r: "r = accept_soft base best_soft"
    by (auto simp: select_route_def split: sum.splits)
  have "hard_or hs hs = hs" by (simp add: hard_or_def)
  with b have pb: "P base" using assms(2) [of hs he base] by simp
  have ps: "\<And>c. best_soft = Some c \<Longrightarrow> P c"
    by (rule soft_search_invariant [where P = P, OF s _ assms(2)]) simp_all
  show ?thesis using r pb ps by (auto simp: accept_soft_def split: option.splits if_splits)
qed

subsection \<open>Claim C4: a hard start anchor is the first stop\<close>

text \<open>
  Claim C4. If a hard start index \<open>s\<close> is given (a valid index into the stops), every route
  the selector produces has \<open>s\<close> at position 0: the nearest-neighbour construction puts
  \<open>s\<close> first, 2-Opt with a fixed start never moves position 0, so every run of the
  optimizer with that start (the baseline and each soft candidate) starts at \<open>s\<close>, and
  hence the accepted route does.
\<close>

theorem hard_start_first:
  assumes "s < length d"
  shows "(length cost = length d \<longrightarrow>
            (\<exists>nn. nearest_neighbor_path layout cost (int s) end_idx = Inr nn
               \<and> nn \<noteq> [] \<and> hd nn = s))
       \<and> hd (two_opt_improve cost path True max_iter) = hd path
       \<and> (\<forall>fe r. optimize_order_from_durations layout d (Some (int s)) fe = Inr r \<longrightarrow>
            order r \<noteq> [] \<and> hd (order r) = s)
       \<and> (\<forall>he sc ec r. select_route layout d (Some s) he sc ec = Inr r \<longrightarrow>
            order r \<noteq> [] \<and> hd (order r) = s)
       \<and> (valid_matrix d \<longrightarrow> (\<forall>he sc ec. \<exists>r. select_route layout d (Some s) he sc ec = Inr r))"
proof (intro conjI allI impI)
  assume n: "length cost = length d"
  obtain nn where nn: "nearest_neighbor_path layout cost (int s) end_idx = Inr nn"
    and m: "mset nn = mset [0..<length cost]"
    and h: "0 < length cost \<longrightarrow> hd nn = clamp_index (length cost) (int s)"
    using nearest_neighbor_path_perm by blast
  have pos: "0 < length cost" using n assms by linarith
  have "length nn = length cost" using m by (metis length_upt size_mset diff_zero)
  then have "nn \<noteq> []" using pos by auto
  moreover have "hd nn = s" using h pos n assms by (simp add: clamp_index_id)
  ultimately show "\<exists>nn. nearest_neighbor_path layout cost (int s) end_idx = Inr nn
               \<and> nn \<noteq> [] \<and> hd nn = s" using nn by blast
next
  show "hd (two_opt_improve cost path True max_iter) = hd path" by (rule two_opt_improve_hd)
next
  fix fe r assume "optimize_order_from_durations layout d (Some (int s)) fe = Inr r"
  from optimize_hd [OF this] assms
  show "order r \<noteq> []" and "hd (order r) = s" by (simp_all add: clamp_index_id)
next
  fix he sc ec r assume sel: "select_route layout d (Some s) he sc ec = Inr r"
  have "order r \<noteq> [] \<and> hd (order r) = s"
  proof (rule select_route_invariant [where P = "\<lambda>c. order c \<noteq> [] \<and> hd (order c) = s", OF sel])
    fix x fe c
    assume "optimize_order_from_durations layout d
              (map_option int (hard_or (Some s) x)) (map_option int fe) = Inr c"
    then have "optimize_order_from_durations layout d (Some (int s)) (map_option int fe) = Inr c"
      by (simp add: hard_or_def)
    from optimize_hd [OF this] assms show "order c \<noteq> [] \<and> hd (order c) = s"
      by (simp add: clamp_index_id)
  qed
  then show "order r \<noteq> []" and "hd (order r) = s" by simp_all
next
  fix he sc ec assume "valid_matrix d"
  then show "\<exists>r. select_route layout d (Some s) he sc ec = Inr r" by (rule select_route_total)
qed

theorem hard_start_first_witness:
  "2 < length scenario_durations \<and> valid_matrix scenario_durations
   \<and> (\<exists>r. select_route index_order scenario_durations (Some 2) None [] [0, 3] = Inr r
          \<and> order r = [2, 0, 1, 3] \<and> hd (order r) = 2)
   \<and> (\<exists>r. optimize_order_from_durations index_order scenario_durations (Some 2) (Some 0) = Inr r
          \<and> order r = [2, 3, 1, 0] \<and> hd (order r) = 2)"
proof -
  have l: "2 < length scenario_durations" by (simp add: scenario_durations_def)
  have v: "valid_matrix scenario_durations"
    by (simp add: valid_matrix_def scenario_durations_def)
  have a: "select_route index_order scenario_durations (Some 2) None [] [0, 3]
             = Inr \<lparr>order = [2, 0, 1, 3], total_cost = 50\<rparr>" by code_simp
  have b: "optimize_order_from_durations index_order scenario_durations (Some 2) (Some 0)
             = Inr \<lparr>order = [2, 3, 1, 0], total_cost = 65\<rparr>" by code_simp
  from hard_start_first [OF l, where layout = index_order] a b
  have "hd (order \<lparr>order = [2, 0, 1, 3], total_cost = 50::real\<rparr>) = 2
      \<and> hd (order \<lparr>order = [2, 3, 1, 0], total_cost = 65::real\<rparr>) = 2"
    by (metis of_nat_numeral)
  with l v a b show ?thesis by simp
qed

subsection \<open>Claim C5: an end anchor is the last stop\<close>

text \<open>
  Claim C5. If an end anchor distinct from the start is designated, the nearest-neighbour
  construction leaves it out of the candidates while another index is unvisited and takes it
  when it is the only one left, so it is the last element of the path; 2-Opt never moves the
  last position; hence the end anchor is the last stop of the optimizer's route, with a given
  start and with the central start.
\<close>

theorem end_anchor_last:
  assumes "e < n" and "s < n" and "s \<noteq> e"
  shows "(1 < length unvisited \<longrightarrow> e \<notin> set (choices_of (Some e) unvisited))
       \<and> choices_of (Some e) [e] = [e]
       \<and> (length cost = n \<longrightarrow>
            (\<exists>nn. nearest_neighbor_path layout cost (int s) (Some (int e)) = Inr nn \<and> last nn = e))
       \<and> last (two_opt_improve cost path fixed_start max_iter) = last path
       \<and> (\<forall>r. length m = n \<longrightarrow>
            optimize_order_from_durations layout m (Some (int s)) (Some (int e)) = Inr r \<longrightarrow>
            last (order r) = e)
       \<and> (\<forall>r. length m = n \<longrightarrow>
            optimize_order_from_durations layout m None (Some (int e)) = Inr r \<longrightarrow>
            last (order r) = e)"
proof (intro conjI allI impI)
  show "e \<notin> set (choices_of (Some e) unvisited)" if "1 < length unvisited"
    using that by (simp add: choices_of_def)
  show "choices_of (Some e) [e] = [e]" by (simp add: choices_of_def)
next
  assume n: "length cost = n"
  obtain nn where nn: "nearest_neighbor_path layout cost (int s) (Some (int e)) = Inr nn"
    using nearest_neighbor_path_perm by blast
  have "last nn = clamp_index (length cost) (int e)"
    by (rule nearest_neighbor_path_end [OF _ _ nn]) (use assms n in \<open>simp_all add: clamp_index_id\<close>)
  with nn show "\<exists>nn. nearest_neighbor_path layout cost (int s) (Some (int e)) = Inr nn \<and> last nn = e"
    using assms n by (simp add: clamp_index_id)
next
  show "last (two_opt_improve cost path fixed_start max_iter) = last path"
    by (rule two_opt_improve_last)
next
  fix r assume n: "length m = n"
    and r: "optimize_order_from_durations layout m (Some (int s)) (Some (int e)) = Inr r"
  have "1 < length m" using assms n by linarith
  from optimize_last [OF r this] assms n show "last (order r) = e"
    by (simp add: clamp_index_id)
next
  fix r assume n: "length m = n"
    and r: "optimize_order_from_durations layout m None (Some (int e)) = Inr r"
  have "1 < length m" using assms n by linarith
  from optimize_last [OF r this] assms n show "last (order r) = e"
    by (simp add: clamp_index_id)
qed

theorem end_anchor_last_witness:
  "(0::nat) < 4 \<and> (2::nat) < 4 \<and> (2::nat) \<noteq> 0
   \<and> choices_of (Some 0) [0, 1, 3] = [1, 3]
   \<and> nearest_neighbor_path index_order scenario_cost 2 (Some 0) = Inr [2, 3, 1, 0]
   \<and> (\<exists>r. optimize_order_from_durations index_order scenario_durations (Some 2) (Some 0) = Inr r
          \<and> order r = [2, 3, 1, 0] \<and> last (order r) = 0)
   \<and> (\<exists>r. optimize_order_from_durations index_order scenario_durations None (Some 0) = Inr r
          \<and> order r = [2, 3, 1, 0] \<and> last (order r) = 0)"
proof -
  have c: "choices_of (Some 0) [0, 1, 3] = [1, 3]" by code_simp
  have n: "nearest_neighbor_path index_order scenario_cost 2 (Some 0) = Inr [2, 3, 1, 0]"
    by code_simp
  have a: "optimize_order_from_durations index_order scenario_durations (Some 2) (Some 0)
             = Inr \<lparr>order = [2, 3, 1, 0], total_cost = 65\<rparr>" by code_simp
  have b: "optimize_order_from_durations index_order scenario_durations None (Some 0)
             = Inr \<lparr>order = [2, 3, 1, 0], total_cost = 65\<rparr>" by code_simp
  have l: "length scenario_durations = 4" by (simp add: scenario_durations_def)
  have h: "(0::nat) < 4" "(2::nat) < 4" "(2::nat) \<noteq> 0" by simp_all
  from end_anchor_last [OF h, where m = scenario_durations and layout = index_order] a b l
  have "last (order \<lparr>order = [2, 3, 1, 0], total_cost = 65::real\<rparr>) = 0"
    by simp
  with h c n a b show ?thesis by simp
qed

section \<open>Properties of the cost matrix validator\<close>

lemma validator_nonempty:
  assumes "m \<noteq> []"
  shows "(\<exists>arr. to_cost_matrix m = Inr arr \<and> validate_full_matrix arr = Inr ()) \<longleftrightarrow> valid_matrix m"
proof
  assume "valid_matrix m"
  then show "\<exists>arr. to_cost_matrix m = Inr arr \<and> validate_full_matrix arr = Inr ()"
    by (rule valid_matrix_validated)
next
  assume "\<exists>arr. to_cost_matrix m = Inr arr \<and> validate_full_matrix arr = Inr ()"
  then obtain arr where a: "to_cost_matrix m = Inr arr" and v: "validate_full_matrix arr = Inr ()"
    by blast
  from assms obtain row rows where m: "m = row # rows" by (cases m) auto
  from a m have h: "list_all (\<lambda>r. length r = length row) rows"
    and arr: "arr = Array2 (length m) (length row)
                (map (map (\<lambda>c. case c of None \<Rightarrow> PosInf | Some x \<Rightarrow> Num x)) m)"
    by (auto simp: to_cost_matrix_def split: if_splits)
  from v arr m have sq: "length row = length m"
    and fin: "\<not> list_ex (list_ex isinf)
                (map (map (\<lambda>c. case c of None \<Rightarrow> PosInf | Some x \<Rightarrow> Num x)) m)"
    by (auto split: if_splits)
  have "\<forall>r \<in> set m. length r = length m" using h sq m by (auto simp: list_all_iff)
  moreover have "\<forall>r \<in> set m. \<forall>c \<in> set r. c \<noteq> None"
    using fin by (force simp: list_ex_iff isinf_def)
  ultimately show "valid_matrix m" using assms by (auto simp: valid_matrix_def list_all_iff)
qed

subsection \<open>Claim C6: the empty matrix is rejected\<close>

text \<open>
  Claim C6 says that the validator turns missing cells into the infinite sentinel, fails on
  non-square input, fails for \<open>N > 0\<close> exactly when an infinite cell remains, and accepts
  the empty matrix and the one-by-one matrix. For a non-empty matrix the code does what the
  claim says (\<open>validator_nonempty\<close>). The empty matrix \<open>[]\<close> is rejected: the conversion
  gives a one-dimensional array, which fails the test for two dimensions before the test
  \<open>n == 0\<close> is reached, although a zero-by-zero array itself passes the validation.
\<close>

theorem validator_rejects_empty_matrix:
  "to_cost_matrix [] = Inr (Array1 [])
   \<and> validate_full_matrix (Array1 []) = Inl (ValueError ''Cost matrix must be NxN'')
   \<and> optimize_order_from_durations layout [] fixed_start_index fixed_end_index
       = Inl (ValueError ''Cost matrix must be NxN'')
   \<and> validate_full_matrix (Array2 0 0 []) = Inr ()"
  by (simp add: to_cost_matrix_def optimize_order_from_durations_def)

section \<open>Tie-breaking of the nearest-neighbour construction\<close>

lemma min_from_snoc:
  "min_from key b (xs @ [x]) =
     (if key x < key (min_from key b xs) then x else min_from key b xs)"
  by (induction xs arbitrary: b) auto

lemma min_from_first_minimal:
  "\<exists>pre post. b # xs = pre @ min_from key b xs # post
      \<and> (\<forall>j \<in> set pre. key (min_from key b xs) < key j)
      \<and> (\<forall>j \<in> set post. key (min_from key b xs) \<le> key j)"
proof (induction xs rule: rev_induct)
  case Nil
  have "[b] = [] @ min_from key b [] # []" by simp
  then show ?case by (intro exI [of _ "[]"]) simp
next
  case (snoc x xs)
  define m where "m = min_from key b xs"
  from snoc obtain pre post where
    sp: "b # xs = pre @ m # post" and
    lo: "\<forall>j \<in> set pre. key m < key j" and hi: "\<forall>j \<in> set post. key m \<le> key j"
    unfolding m_def by blast
  show ?case
  proof (cases "key x < key m")
    case True
    then have mf: "min_from key b (xs @ [x]) = x" by (simp add: min_from_snoc m_def)
    have all: "\<forall>j \<in> set (b # xs). key m \<le> key j"
      unfolding sp using lo hi by auto
    have "b # xs @ [x] = (b # xs) @ x # []" by simp
    moreover have "\<forall>j \<in> set (b # xs). key x < key j" using all True by fastforce
    ultimately show ?thesis unfolding mf by (intro exI [of _ "b # xs"] exI [of _ "[]"]) simp
  next
    case False
    then have mf: "min_from key b (xs @ [x]) = m" by (simp add: min_from_snoc m_def)
    have "b # xs @ [x] = pre @ m # (post @ [x])" using sp by simp
    moreover have "\<forall>j \<in> set (post @ [x]). key m \<le> key j" using hi False by auto
    ultimately show ?thesis unfolding mf using lo
      by (intro exI [of _ pre] exI [of _ "post @ [x]"]) simp
  qed
qed

lemma py_min_first_minimal:
  assumes "ys \<noteq> []"
  shows "\<exists>x pre post. py_min key ys = Inr x \<and> ys = pre @ x # post
      \<and> (\<forall>j \<in> set pre. key x < key j) \<and> (\<forall>j \<in> set post. key x \<le> key j)"
proof -
  from assms obtain b xs where ys: "ys = b # xs" by (cases ys) auto
  from min_from_first_minimal [of b xs key] show ?thesis
    unfolding ys by (simp add: py_min_def)
qed

lemma set_iteration_index_order_sorted: "sorted (set_iteration index_order xs)"
proof -
  have "index_order xs = (\<lambda>j. j)" by (rule ext) (simp add: index_order_def)
  then show ?thesis by (simp add: set_iteration_def)
qed

lemma nearest_neighbor_path_unfold:
  "0 < length cost \<Longrightarrow>
   nearest_neighbor_path layout cost start end_idx =
     nn_loop layout cost (kept_end (length cost) start end_idx)
       (removeAll (clamp_index (length cost) start) [0..<length cost])
       [clamp_index (length cost) start] (clamp_index (length cost) start)"
  by (cases end_idx) (simp_all add: nearest_neighbor_path_def kept_end_def Let_def)

lemma removeAll_unplaced:
  "removeAll x (filter (\<lambda>j. j \<notin> set path) xs) = filter (\<lambda>j. j \<notin> set (path @ [x])) xs"
  by (induction xs) auto

lemma nn_loop_steps:
  assumes "nn_loop layout cost e u path cur = Inr res"
      and "u = filter (\<lambda>j. j \<notin> set path) [0..<n]"
      and "path \<noteq> []" and "cur = last path"
      and "length path \<le> Suc i" and "Suc i < length res"
  shows "\<exists>pre post.
           set_iteration layout (choices_of e (filter (\<lambda>j. j \<notin> set (take (Suc i) res)) [0..<n]))
             = pre @ res ! Suc i # post
           \<and> (\<forall>j \<in> set pre. cost ! (res ! i) ! (res ! Suc i) < cost ! (res ! i) ! j)
           \<and> (\<forall>j \<in> set post. cost ! (res ! i) ! (res ! Suc i) \<le> cost ! (res ! i) ! j)"
  using assms
proof (induction layout cost e u path cur rule: nn_loop.induct)
  case (1 layout cost e u path cur)
  have d: "distinct u" unfolding "1.prems"(2) by simp
  have ne: "u \<noteq> []"
  proof
    assume "u = []"
    with "1.prems"(1) have "res = path" by (subst (asm) nn_loop.simps) simp
    with "1.prems"(5,6) show False by simp
  qed
  have cne: "set_iteration layout (choices_of e u) \<noteq> []"
    using d ne by (simp add: choices_of_nonempty)
  from py_min_first_minimal [OF cne, of "\<lambda>j. cost ! cur ! j"] obtain x pre post where
    x: "py_min (\<lambda>j. cost ! cur ! j) (set_iteration layout (choices_of e u)) = Inr x"
    and sp: "set_iteration layout (choices_of e u) = pre @ x # post"
    and lo: "\<forall>j \<in> set pre. cost ! cur ! x < cost ! cur ! j"
    and hi: "\<forall>j \<in> set post. cost ! cur ! x \<le> cost ! cur ! j" by blast
  have "x \<in> set (choices_of e u)" using py_min_mem [OF x] by simp
  then have xu: "x \<in> set u" using choices_of_subset by blast
  have step: "nn_loop layout cost e (removeAll x u) (path @ [x]) x = Inr res"
    using "1.prems"(1) ne x xu by (subst (asm) nn_loop.simps) simp
  have u': "removeAll x u = filter (\<lambda>j. j \<notin> set (path @ [x])) [0..<n]"
    unfolding "1.prems"(2) by (rule removeAll_unplaced)
  have d': "distinct (removeAll x u)" using d by (simp add: distinct_removeAll)
  from nn_loop_perm [OF d', of layout cost e "path @ [x]" x] step
  have t: "take (length (path @ [x])) res = path @ [x]" by auto
  show ?case
  proof (cases "Suc i = length path")
    case True
    have lr: "length path < length res" using "1.prems"(6) True by simp
    have a: "res ! Suc i = x"
    proof -
      have "res ! length path = take (length (path @ [x])) res ! length path" by simp
      also have "\<dots> = x" unfolding t by simp
      finally show ?thesis using True by simp
    qed
    have tp: "take (Suc i) res = path"
    proof -
      have "take (length path) res = take (length path) (take (length (path @ [x])) res)"
        by (simp add: min_def)
      also have "\<dots> = path" unfolding t by simp
      finally show ?thesis using True by simp
    qed
    have b: "res ! i = cur"
    proof -
      have "i < length path" using True by simp
      then have "res ! i = take (Suc i) res ! i" by simp
      also have "\<dots> = path ! i" unfolding tp ..
      also have "\<dots> = last path"
      proof -
        have "i = length path - 1" using True by simp
        then show ?thesis using "1.prems"(3) by (simp add: last_conv_nth)
      qed
      finally show ?thesis using "1.prems"(4) by simp
    qed
    have c: "filter (\<lambda>j. j \<notin> set (take (Suc i) res)) [0..<n] = u"
      unfolding tp "1.prems"(2) ..
    show ?thesis unfolding a b c using sp lo hi by blast
  next
    case False
    with "1.prems"(5) have le: "length (path @ [x]) \<le> Suc i" by simp
    have np: "path @ [x] \<noteq> []" by simp
    have lp: "x = last (path @ [x])" by simp
    from "1.IH" [OF ne x xu step u' np lp le "1.prems"(6)] show ?thesis .
  qed
qed

lemma nearest_neighbor_path_steps:
  assumes "nearest_neighbor_path layout cost start end_idx = Inr route"
      and "Suc i < length route"
  shows "\<exists>pre post.
           set_iteration layout (candidates_at cost start end_idx route i)
             = pre @ route ! Suc i # post
           \<and> (\<forall>j \<in> set pre. cost ! (route ! i) ! (route ! Suc i) < cost ! (route ! i) ! j)
           \<and> (\<forall>j \<in> set post. cost ! (route ! i) ! (route ! Suc i) \<le> cost ! (route ! i) ! j)"
proof -
  have pos: "0 < length cost"
  proof (rule ccontr)
    assume "\<not> 0 < length cost"
    with assms(1) have "route = []" by (simp add: nearest_neighbor_path_def)
    with assms(2) show False by simp
  qed
  define s where "s = clamp_index (length cost) start"
  have r: "nn_loop layout cost (kept_end (length cost) start end_idx)
             (removeAll s [0..<length cost]) [s] s = Inr route"
    using assms(1) unfolding nearest_neighbor_path_unfold [OF pos] s_def .
  have u: "removeAll s [0..<length cost] = filter (\<lambda>j. j \<notin> set [s]) [0..<length cost]"
    using removeAll_unplaced [of s "[]" "[0..<length cost]"] by simp
  have "length [s] \<le> Suc i" by simp
  from nn_loop_steps [OF r u _ _ this assms(2)] show ?thesis
    unfolding candidates_at_def by simp
qed

lemma first_cheapest_sorted:
  fixes key :: "'a::linorder \<Rightarrow> real"
  assumes "sorted (pre @ x # post)"
      and "\<forall>j \<in> set pre. key x < key j" and "\<forall>j \<in> set post. key x \<le> key j"
  shows "\<forall>j \<in> set (pre @ x # post). key x \<le> key j \<and> (key j = key x \<longrightarrow> x \<le> j)"
proof
  fix j assume "j \<in> set (pre @ x # post)"
  then consider "j \<in> set pre" | "j = x" | "j \<in> set post" by auto
  then show "key x \<le> key j \<and> (key j = key x \<longrightarrow> x \<le> j)"
  proof cases
    case 1
    with assms(2) show ?thesis by fastforce
  next
    case 2
    then show ?thesis by simp
  next
    case 3
    with assms(1,3) show ?thesis by (auto simp: sorted_append)
  qed
qed

lemma nearest_neighbor_path_lowest_index:
  assumes "nearest_neighbor_path index_order cost start end_idx = Inr route"
      and "Suc i < length route"
  shows "route ! Suc i \<in> set (candidates_at cost start end_idx route i)
         \<and> (\<forall>j \<in> set (candidates_at cost start end_idx route i).
               cost ! (route ! i) ! (route ! Suc i) \<le> cost ! (route ! i) ! j
               \<and> (cost ! (route ! i) ! j = cost ! (route ! i) ! (route ! Suc i)
                    \<longrightarrow> route ! Suc i \<le> j))"
proof -
  define ch where "ch = candidates_at cost start end_idx route i"
  from nearest_neighbor_path_steps [OF assms] obtain pre post where
    sp: "set_iteration index_order ch = pre @ route ! Suc i # post"
    and lo: "\<forall>j \<in> set pre. cost ! (route ! i) ! (route ! Suc i) < cost ! (route ! i) ! j"
    and hi: "\<forall>j \<in> set post. cost ! (route ! i) ! (route ! Suc i) \<le> cost ! (route ! i) ! j"
    unfolding ch_def by blast
  have srt: "sorted (pre @ route ! Suc i # post)"
    using set_iteration_index_order_sorted [of ch] by (simp only: sp)
  have s: "set ch = set (pre @ route ! Suc i # post)" using sp by (metis set_set_iteration)
  from first_cheapest_sorted [OF srt, of "\<lambda>j. cost ! (route ! i) ! j", OF lo hi]
  show ?thesis unfolding ch_def [symmetric] s by simp
qed

lemma py_min_unique:
  assumes "set xs = set ys" and "inj_on key (set xs)"
  shows "py_min key xs = py_min key ys"
proof (cases "xs = []")
  case True
  with assms(1) have "ys = []" by simp
  with True show ?thesis by simp
next
  case False
  with assms(1) have ny: "ys \<noteq> []" by auto
  from py_min_first_minimal [OF False, of key] obtain x pre post where
    x: "py_min key xs = Inr x" and xs: "xs = pre @ x # post"
    and xl: "\<forall>j \<in> set pre. key x < key j" and xh: "\<forall>j \<in> set post. key x \<le> key j" by blast
  from py_min_first_minimal [OF ny, of key] obtain y pre' post' where
    y: "py_min key ys = Inr y" and ys: "ys = pre' @ y # post'"
    and yl: "\<forall>j \<in> set pre'. key y < key j" and yh: "\<forall>j \<in> set post'. key y \<le> key j" by blast
  have xm: "\<forall>j \<in> set xs. key x \<le> key j" unfolding xs using xl xh by auto
  have ym: "\<forall>j \<in> set ys. key y \<le> key j" unfolding ys using yl yh by auto
  have xin: "x \<in> set xs" unfolding xs by simp
  have yin: "y \<in> set xs" unfolding assms(1) ys by simp
  have "key x \<le> key y" using xm yin by blast
  moreover have "key y \<le> key x" using ym xin assms(1) by blast
  ultimately have "key x = key y" by simp
  with assms(2) xin yin have "x = y" by (auto dest: inj_onD)
  with x y show ?thesis by simp
qed

lemma nn_loop_layout:
  assumes "\<And>c members. c \<in> insert cur (set u) \<Longrightarrow> set members \<subseteq> set u \<Longrightarrow> c \<notin> set members \<Longrightarrow>
             py_min (\<lambda>j. cost ! c ! j) (set_iteration layout members)
               = py_min (\<lambda>j. cost ! c ! j) (set_iteration layout' members)"
      and "cur \<notin> set u"
  shows "nn_loop layout cost e u path cur = nn_loop layout' cost e u path cur"
  using assms
proof (induction layout cost e u path cur rule: nn_loop.induct)
  case (1 layout cost e u path cur)
  show ?case
  proof (cases "u = []")
    case True
    then show ?thesis by (simp add: nn_loop.simps [of _ _ _ "[]"])
  next
    case False
    have sub: "set (choices_of e u) \<subseteq> set u" by (rule choices_of_subset)
    have nc: "cur \<notin> set (choices_of e u)" using sub "1.prems"(2) by blast
    have eq: "py_min (\<lambda>j. cost ! cur ! j) (set_iteration layout (choices_of e u))
                = py_min (\<lambda>j. cost ! cur ! j) (set_iteration layout' (choices_of e u))"
      by (rule "1.prems"(1) [OF _ sub nc]) simp
    show ?thesis
    proof (cases "py_min (\<lambda>j. cost ! cur ! j) (set_iteration layout (choices_of e u))")
      case (Inl err)
      then show ?thesis using False eq
        by (simp add: nn_loop.simps [of layout cost e u] nn_loop.simps [of layout' cost e u])
    next
      case (Inr x)
      show ?thesis
      proof (cases "x \<in> set u")
        case True
        have rec: "nn_loop layout cost e (removeAll x u) (path @ [x]) x
                     = nn_loop layout' cost e (removeAll x u) (path @ [x]) x"
        proof (rule "1.IH" [OF False Inr True])
          fix c members
          assume c: "c \<in> insert x (set (removeAll x u))"
            and m: "set members \<subseteq> set (removeAll x u)" and cm: "c \<notin> set members"
          from c True have c': "c \<in> insert cur (set u)" by auto
          from m have m': "set members \<subseteq> set u" by auto
          from "1.prems"(1) [OF c' m' cm]
          show "py_min (\<lambda>j. cost ! c ! j) (set_iteration layout members)
                  = py_min (\<lambda>j. cost ! c ! j) (set_iteration layout' members)" .
        next
          show "x \<notin> set (removeAll x u)" by simp
        qed
        show ?thesis using False Inr eq True rec
          by (simp add: nn_loop.simps [of layout cost e u] nn_loop.simps [of layout' cost e u])
      next
        case F: False
        show ?thesis using False Inr eq F
          by (simp add: nn_loop.simps [of layout cost e u] nn_loop.simps [of layout' cost e u])
      qed
    qed
  qed
qed

lemma nearest_neighbor_path_layout:
  assumes "\<And>c members. c < length cost \<Longrightarrow> set members \<subseteq> {0..<length cost} \<Longrightarrow> c \<notin> set members \<Longrightarrow>
             py_min (\<lambda>j. cost ! c ! j) (set_iteration layout members)
               = py_min (\<lambda>j. cost ! c ! j) (set_iteration layout' members)"
  shows "nearest_neighbor_path layout cost start end_idx
           = nearest_neighbor_path layout' cost start end_idx"
proof (cases "0 < length cost")
  case False
  then show ?thesis by (simp add: nearest_neighbor_path_def)
next
  case True
  define s where "s = clamp_index (length cost) start"
  have sl: "s < length cost" using True by (simp add: s_def clamp_index_less)
  have "nn_loop layout cost (kept_end (length cost) start end_idx)
          (removeAll s [0..<length cost]) [s] s
        = nn_loop layout' cost (kept_end (length cost) start end_idx)
          (removeAll s [0..<length cost]) [s] s"
  proof (rule nn_loop_layout)
    fix c members
    assume c: "c \<in> insert s (set (removeAll s [0..<length cost]))"
      and m: "set members \<subseteq> set (removeAll s [0..<length cost])" and cm: "c \<notin> set members"
    from c sl have c': "c < length cost" by auto
    from m have m': "set members \<subseteq> {0..<length cost}" by auto
    from assms [OF c' m' cm]
    show "py_min (\<lambda>j. cost ! c ! j) (set_iteration layout members)
            = py_min (\<lambda>j. cost ! c ! j) (set_iteration layout' members)" .
  next
    show "s \<notin> set (removeAll s [0..<length cost])" by simp
  qed
  then show ?thesis unfolding nearest_neighbor_path_unfold [OF True] s_def .
qed

lemma optimize_core_layout:
  assumes "\<And>start end_idx. nearest_neighbor_path layout cost start end_idx
             = nearest_neighbor_path layout' cost start end_idx"
  shows "optimize_core layout cost fs fe = optimize_core layout' cost fs fe"
  unfolding optimize_core_def assms ..

lemma optimize_layout:
  assumes "\<And>arr u c members. to_cost_matrix m = Inr arr \<Longrightarrow> validate_full_matrix arr = Inr u \<Longrightarrow>
             c < length m \<Longrightarrow> set members \<subseteq> {0..<length m} \<Longrightarrow> c \<notin> set members \<Longrightarrow>
             py_min (\<lambda>j. cost_values arr ! c ! j) (set_iteration layout members)
               = py_min (\<lambda>j. cost_values arr ! c ! j) (set_iteration layout' members)"
  shows "optimize_order_from_durations layout m fs fe
           = optimize_order_from_durations layout' m fs fe"
proof (cases "to_cost_matrix m")
  case (Inl err)
  then show ?thesis by (simp add: optimize_unfold)
next
  case (Inr arr)
  show ?thesis
  proof (cases "validate_full_matrix arr")
    case (Inl err)
    with \<open>to_cost_matrix m = Inr arr\<close> show ?thesis by (simp add: optimize_unfold)
  next
    case v: (Inr u)
    note len = validated_length [OF Inr v]
    have "optimize_core layout (cost_values arr) fs fe
            = optimize_core layout' (cost_values arr) fs fe"
    proof (rule optimize_core_layout, rule nearest_neighbor_path_layout)
      fix c members
      assume "c < length (cost_values arr)" "set members \<subseteq> {0..<length (cost_values arr)}"
        "c \<notin> set members"
      then show "py_min (\<lambda>j. cost_values arr ! c ! j) (set_iteration layout members)
            = py_min (\<lambda>j. cost_values arr ! c ! j) (set_iteration layout' members)"
        using assms [OF Inr v] unfolding len by blast
    qed
    with Inr v show ?thesis by (simp add: optimize_unfold)
  qed
qed

lemma validated_cell:
  assumes "to_cost_matrix m = Inr arr" and "validate_full_matrix arr = Inr u"
      and "c < length m" and "j < length m"
  shows "m ! c ! j = Some (cost_values arr ! c ! j)"
proof -
  from assms(1,3) obtain row rows where m: "m = row # rows" by (cases m) auto
  have la: "list_all (\<lambda>r. length r = length row) rows"
    and arr: "arr = Array2 (length m) (length row)
                (map (map (\<lambda>c. case c of None \<Rightarrow> PosInf | Some x \<Rightarrow> Num x)) m)"
    using assms(1) unfolding m by (auto simp: to_cost_matrix_def split: if_splits)
  have sq: "length m = length row"
    and ni: "\<not> list_ex (list_ex isinf)
               (map (map (\<lambda>c. case c of None \<Rightarrow> PosInf | Some x \<Rightarrow> Num x)) m)"
    using assms(2,3) unfolding arr by (auto split: if_splits)
  have rc: "m ! c \<in> set m" using assms(3) by simp
  then have lc: "length (m ! c) = length m"
    using la sq unfolding m by (auto simp: list_all_iff)
  have cj: "m ! c ! j \<in> set (m ! c)" using assms(4) lc by simp
  have "m ! c ! j \<noteq> None"
  proof
    assume n: "m ! c ! j = None"
    have "list_ex (list_ex isinf)
            (map (map (\<lambda>c. case c of None \<Rightarrow> PosInf | Some x \<Rightarrow> Num x)) m)"
      unfolding list_ex_iff using rc cj n by (force simp: isinf_def)
    with ni show False ..
  qed
  then obtain a where a: "m ! c ! j = Some a" by blast
  have "cost_values arr ! c ! j = a"
    unfolding arr using assms(3,4) lc a by simp
  with a show ?thesis by simp
qed

lemma no_ties_inj:
  assumes "no_ties m" and "c < length m" and "set members \<subseteq> {0..<length m}"
      and "c \<notin> set members"
  shows "inj_on (\<lambda>j. m ! c ! j) (set members)"
proof -
  have "distinct (map (\<lambda>j. m ! c ! j) (filter (\<lambda>j. j \<noteq> c) [0..<length m]))"
    using assms(1,2) by (simp add: no_ties_def list_all_iff)
  then have "inj_on (\<lambda>j. m ! c ! j) (set (filter (\<lambda>j. j \<noteq> c) [0..<length m]))"
    by (simp add: distinct_map)
  moreover have "set members \<subseteq> set (filter (\<lambda>j. j \<noteq> c) [0..<length m])"
    using assms(3,4) by auto
  ultimately show ?thesis by (rule inj_on_subset)
qed

lemma insort_key_agree:
  "f x = g x \<Longrightarrow> (\<And>y. y \<in> set ys \<Longrightarrow> f y = g y) \<Longrightarrow> insort_key f x ys = insort_key g x ys"
  by (induction ys) auto

lemma sort_key_agree:
  "(\<And>x. x \<in> set xs \<Longrightarrow> f x = g x) \<Longrightarrow> sort_key f xs = sort_key g xs"
proof (induction xs)
  case Nil
  show ?case by simp
next
  case (Cons a xs)
  have ih: "sort_key f xs = sort_key g xs" using Cons by simp
  have "insort_key f a (sort_key g xs) = insort_key g a (sort_key g xs)"
    using Cons.prems by (intro insort_key_agree) simp_all
  then show ?case using ih by (simp add: sort_key_def)
qed

lemma choose_central_start_lowest_index:
  assumes "0 < length cost"
  shows "choose_central_start cost < length cost
         \<and> (\<forall>j < length cost.
               row_sums cost ! choose_central_start cost \<le> row_sums cost ! j
               \<and> (row_sums cost ! j = row_sums cost ! choose_central_start cost
                    \<longrightarrow> choose_central_start cost \<le> j))"
proof -
  define key where "key = (\<lambda>i. row_sums cost ! i)"
  define x where "x = min_from key 0 [1..<length cost]"
  have cs: "choose_central_start cost = x"
    using assms by (simp add: choose_central_start_def x_def key_def Let_def)
  have up: "0 # [1..<length cost] = [0..<length cost]" using assms by (simp add: upt_conv_Cons)
  from min_from_first_minimal [of 0 "[1..<length cost]" key] obtain pre post where
    sp: "[0..<length cost] = pre @ x # post"
    and lo: "\<forall>j \<in> set pre. key x < key j" and hi: "\<forall>j \<in> set post. key x \<le> key j"
    unfolding x_def [symmetric] up by blast
  have srt: "sorted (pre @ x # post)" unfolding sp [symmetric] by simp
  from first_cheapest_sorted [OF srt lo hi]
  have all: "\<forall>j \<in> set [0..<length cost]. key x \<le> key j \<and> (key j = key x \<longrightarrow> x \<le> j)"
    unfolding sp .
  have "x \<in> set [0..<length cost]" unfolding sp by simp
  then show ?thesis unfolding cs using all by (simp add: key_def)
qed


subsection \<open>Claim C8: ties are broken by the iteration order of the candidate set\<close>

text \<open>
  Claim C8 says that among candidates of exactly equal edge cost the lowest index is chosen.
  The construction takes \<open>min\<close> over a Python set, so the first cheapest candidate in the
  iteration order of that set is chosen. With the order in which CPython iterates the
  candidate sets of the run below, index 8 is chosen although index 5 has the same cost.
\<close>

theorem tie_break_lowest_index_counterexample:
  "choices_of (Some 1) [1, 5, 6, 7, 8] = [5, 6, 7, 8]
   \<and> set_iteration hash_slot_order [5, 6, 7, 8] = [8, 5, 6, 7]
   \<and> tie_cost ! 4 ! 5 = tie_cost ! 4 ! 8
   \<and> py_min (\<lambda>j. tie_cost ! 4 ! j)
         (set_iteration hash_slot_order (choices_of (Some 1) [1, 5, 6, 7, 8])) = Inr 8
   \<and> (5::nat) < 8
   \<and> nearest_neighbor_path hash_slot_order tie_cost 0 (Some 1)
       = Inr [0, 2, 3, 4, 8, 5, 6, 7, 1]
   \<and> optimize_order_from_durations hash_slot_order tie_durations (Some 0) (Some 1)
       = Inr \<lparr>order = [0, 2, 3, 4, 8, 5, 6, 7, 1], total_cost = 8\<rparr>"
proof -
  have a: "choices_of (Some 1) [1, 5, 6, 7, 8] = [5, 6, 7, 8]" by code_simp
  have b: "set_iteration hash_slot_order [5, 6, 7, 8] = [8, 5, 6, 7]" by code_simp
  have c: "tie_cost ! 4 ! 5 = tie_cost ! 4 ! 8" by code_simp
  have d: "py_min (\<lambda>j. tie_cost ! 4 ! j)
         (set_iteration hash_slot_order (choices_of (Some 1) [1, 5, 6, 7, 8])) = Inr 8"
    by code_simp
  have e: "nearest_neighbor_path hash_slot_order tie_cost 0 (Some 1)
       = Inr [0, 2, 3, 4, 8, 5, 6, 7, 1]" by code_simp
  have f: "optimize_order_from_durations hash_slot_order tie_durations (Some 0) (Some 1)
       = Inr \<lparr>order = [0, 2, 3, 4, 8, 5, 6, 7, 1], total_cost = 8\<rparr>" by code_simp
  show ?thesis using a b c d e f by simp
qed

text \<open>
  Claim C8 as amended. At every step of the nearest-neighbour construction the next stop is
  a candidate of minimum edge cost from the current tail, and among candidates of exactly
  equal cost it is the first one in the iteration order of the candidate set (first
  conjunct); when the sets are iterated in ascending index order, it is the lowest index
  among the cheapest candidates (second conjunct). The central start index is the lowest
  index among the rows of minimum sum (third conjunct). The route returned by the optimizer
  is determined by the matrix, the anchors and the iteration order of the candidate sets:
  two runs on an identical matrix with identical anchors return an identical result when
  both iterate every set of indices in the same order (fourth conjunct), and under any two
  iteration orders when the matrix has no ties (fifth conjunct).
\<close>

theorem tie_break_follows_iteration_order:
  "(\<exists>route. nearest_neighbor_path layout cost start end_idx = Inr route
      \<and> (\<forall>i. Suc i < length route \<longrightarrow>
            (\<exists>pre post.
               set_iteration layout (candidates_at cost start end_idx route i)
                 = pre @ route ! Suc i # post
               \<and> (\<forall>j \<in> set pre. cost ! (route ! i) ! (route ! Suc i) < cost ! (route ! i) ! j)
               \<and> (\<forall>j \<in> set post. cost ! (route ! i) ! (route ! Suc i) \<le> cost ! (route ! i) ! j))
            \<and> (\<forall>j \<in> set (candidates_at cost start end_idx route i).
                  cost ! (route ! i) ! (route ! Suc i) \<le> cost ! (route ! i) ! j)))
   \<and> (\<exists>route. nearest_neighbor_path index_order cost start end_idx = Inr route
      \<and> (\<forall>i. Suc i < length route \<longrightarrow>
            route ! Suc i \<in> set (candidates_at cost start end_idx route i)
            \<and> (\<forall>j \<in> set (candidates_at cost start end_idx route i).
                  cost ! (route ! i) ! (route ! Suc i) \<le> cost ! (route ! i) ! j
                  \<and> (cost ! (route ! i) ! j = cost ! (route ! i) ! (route ! Suc i)
                       \<longrightarrow> route ! Suc i \<le> j))))
   \<and> (0 < length cost \<longrightarrow>
        choose_central_start cost < length cost
        \<and> (\<forall>j < length cost.
              row_sums cost ! choose_central_start cost \<le> row_sums cost ! j
              \<and> (row_sums cost ! j = row_sums cost ! choose_central_start cost
                   \<longrightarrow> choose_central_start cost \<le> j)))
   \<and> ((\<forall>members. set members \<subseteq> {0..<length m} \<longrightarrow>
          set_iteration layout members = set_iteration layout' members) \<longrightarrow>
        optimize_order_from_durations layout m fs fe
          = optimize_order_from_durations layout' m fs fe)
   \<and> (no_ties m \<longrightarrow>
        optimize_order_from_durations layout m fs fe
          = optimize_order_from_durations layout' m fs fe)"
proof (intro conjI impI)
  obtain route where r: "nearest_neighbor_path layout cost start end_idx = Inr route"
    using nearest_neighbor_path_perm by blast
  have "\<forall>i. Suc i < length route \<longrightarrow>
            (\<exists>pre post.
               set_iteration layout (candidates_at cost start end_idx route i)
                 = pre @ route ! Suc i # post
               \<and> (\<forall>j \<in> set pre. cost ! (route ! i) ! (route ! Suc i) < cost ! (route ! i) ! j)
               \<and> (\<forall>j \<in> set post. cost ! (route ! i) ! (route ! Suc i) \<le> cost ! (route ! i) ! j))
            \<and> (\<forall>j \<in> set (candidates_at cost start end_idx route i).
                  cost ! (route ! i) ! (route ! Suc i) \<le> cost ! (route ! i) ! j)"
  proof (intro allI impI)
    fix i assume i: "Suc i < length route"
    from nearest_neighbor_path_steps [OF r i] obtain pre post where
      sp: "set_iteration layout (candidates_at cost start end_idx route i)
             = pre @ route ! Suc i # post"
      and lo: "\<forall>j \<in> set pre. cost ! (route ! i) ! (route ! Suc i) < cost ! (route ! i) ! j"
      and hi: "\<forall>j \<in> set post. cost ! (route ! i) ! (route ! Suc i) \<le> cost ! (route ! i) ! j"
      by blast
    have s: "set (candidates_at cost start end_idx route i) = set (pre @ route ! Suc i # post)"
      using sp by (metis set_set_iteration)
    have "\<forall>j \<in> set (candidates_at cost start end_idx route i).
            cost ! (route ! i) ! (route ! Suc i) \<le> cost ! (route ! i) ! j"
      unfolding s using lo hi by auto
    with sp lo hi show "(\<exists>pre post.
               set_iteration layout (candidates_at cost start end_idx route i)
                 = pre @ route ! Suc i # post
               \<and> (\<forall>j \<in> set pre. cost ! (route ! i) ! (route ! Suc i) < cost ! (route ! i) ! j)
               \<and> (\<forall>j \<in> set post. cost ! (route ! i) ! (route ! Suc i) \<le> cost ! (route ! i) ! j))
            \<and> (\<forall>j \<in> set (candidates_at cost start end_idx route i).
                  cost ! (route ! i) ! (route ! Suc i) \<le> cost ! (route ! i) ! j)"
      by blast
  qed
  with r show "\<exists>route. nearest_neighbor_path layout cost start end_idx = Inr route
      \<and> (\<forall>i. Suc i < length route \<longrightarrow>
            (\<exists>pre post.
               set_iteration layout (candidates_at cost start end_idx route i)
                 = pre @ route ! Suc i # post
               \<and> (\<forall>j \<in> set pre. cost ! (route ! i) ! (route ! Suc i) < cost ! (route ! i) ! j)
               \<and> (\<forall>j \<in> set post. cost ! (route ! i) ! (route ! Suc i) \<le> cost ! (route ! i) ! j))
            \<and> (\<forall>j \<in> set (candidates_at cost start end_idx route i).
                  cost ! (route ! i) ! (route ! Suc i) \<le> cost ! (route ! i) ! j))"
    by blast
next
  obtain route where r: "nearest_neighbor_path index_order cost start end_idx = Inr route"
    using nearest_neighbor_path_perm by blast
  show "\<exists>route. nearest_neighbor_path index_order cost start end_idx = Inr route
      \<and> (\<forall>i. Suc i < length route \<longrightarrow>
            route ! Suc i \<in> set (candidates_at cost start end_idx route i)
            \<and> (\<forall>j \<in> set (candidates_at cost start end_idx route i).
                  cost ! (route ! i) ! (route ! Suc i) \<le> cost ! (route ! i) ! j
                  \<and> (cost ! (route ! i) ! j = cost ! (route ! i) ! (route ! Suc i)
                       \<longrightarrow> route ! Suc i \<le> j)))"
    using r nearest_neighbor_path_lowest_index [OF r] by blast
next
  assume "0 < length cost"
  from choose_central_start_lowest_index [OF this]
  show "choose_central_start cost < length cost"
    and "\<forall>j < length cost.
              row_sums cost ! choose_central_start cost \<le> row_sums cost ! j
              \<and> (row_sums cost ! j = row_sums cost ! choose_central_start cost
                   \<longrightarrow> choose_central_start cost \<le> j)"
    by blast+
next
  assume same: "\<forall>members. set members \<subseteq> {0..<length m} \<longrightarrow>
          set_iteration layout members = set_iteration layout' members"
  show "optimize_order_from_durations layout m fs fe
          = optimize_order_from_durations layout' m fs fe"
  proof (rule optimize_layout)
    fix arr c and members :: "nat list"
    assume "set members \<subseteq> {0..<length m}"
    with same have "set_iteration layout members = set_iteration layout' members" by blast
    then show "py_min (\<lambda>j. cost_values arr ! c ! j) (set_iteration layout members)
            = py_min (\<lambda>j. cost_values arr ! c ! j) (set_iteration layout' members)" by simp
  qed
next
  assume nt: "no_ties m"
  show "optimize_order_from_durations layout m fs fe
          = optimize_order_from_durations layout' m fs fe"
  proof (rule optimize_layout)
    fix arr u c and members :: "nat list"
    assume arr: "to_cost_matrix m = Inr arr" and v: "validate_full_matrix arr = Inr u"
      and c: "c < length m" and mem: "set members \<subseteq> {0..<length m}" and cm: "c \<notin> set members"
    have inj: "inj_on (\<lambda>j. m ! c ! j) (set members)" by (rule no_ties_inj [OF nt c mem cm])
    have "inj_on (\<lambda>j. cost_values arr ! c ! j) (set members)"
    proof (rule inj_onI)
      fix j k assume j: "j \<in> set members" and k: "k \<in> set members"
        and eq: "cost_values arr ! c ! j = cost_values arr ! c ! k"
      have "j < length m" "k < length m" using j k mem by auto
      then have "m ! c ! j = m ! c ! k"
        using validated_cell [OF arr v c] eq by simp
      with inj j k show "j = k" by (auto dest: inj_onD)
    qed
    then have "inj_on (\<lambda>j. cost_values arr ! c ! j) (set (set_iteration layout members))"
      by simp
    moreover have "set (set_iteration layout members) = set (set_iteration layout' members)"
      by simp
    ultimately show "py_min (\<lambda>j. cost_values arr ! c ! j) (set_iteration layout members)
            = py_min (\<lambda>j. cost_values arr ! c ! j) (set_iteration layout' members)"
      by (rule py_min_unique [rotated])
  qed
qed

theorem tie_break_follows_iteration_order_witness:
  "nearest_neighbor_path hash_slot_order tie_cost 0 (Some 1) = Inr [0, 2, 3, 4, 8, 5, 6, 7, 1]
   \<and> candidates_at tie_cost 0 (Some 1) [0, 2, 3, 4, 8, 5, 6, 7, 1] 3 = [5, 6, 7, 8]
   \<and> set_iteration hash_slot_order [5, 6, 7, 8] = [] @ 8 # [5, 6, 7]
   \<and> (\<exists>pre post. set_iteration hash_slot_order [5, 6, 7, 8] = pre @ 8 # post
         \<and> (\<forall>j \<in> set pre. tie_cost ! 4 ! 8 < tie_cost ! 4 ! j)
         \<and> (\<forall>j \<in> set post. tie_cost ! 4 ! 8 \<le> tie_cost ! 4 ! j))
   \<and> nearest_neighbor_path index_order tie_cost 0 (Some 1) = Inr [0, 2, 3, 4, 5, 6, 7, 8, 1]
   \<and> candidates_at tie_cost 0 (Some 1) [0, 2, 3, 4, 5, 6, 7, 8, 1] 3 = [5, 6, 7, 8]
   \<and> list_all (\<lambda>j. tie_cost ! 4 ! 5 \<le> tie_cost ! 4 ! j
                     \<and> (tie_cost ! 4 ! j = tie_cost ! 4 ! 5 \<longrightarrow> 5 \<le> j)) [5, 6, 7, 8]
   \<and> 0 < length tie_cost \<and> choose_central_start tie_cost = 0
   \<and> list_all (\<lambda>j. row_sums tie_cost ! 0 \<le> row_sums tie_cost ! j) [0..<length tie_cost]
   \<and> \<not> (\<exists>members. set members \<subseteq> {0..<length tie_durations}
           \<and> set_iteration hash_slot_order members \<noteq> set_iteration wide_slot_order members)
   \<and> hash_slot_order [0, 1, 2, 3, 4] 16 \<noteq> wide_slot_order [0, 1, 2, 3, 4] 16
   \<and> optimize_order_from_durations wide_slot_order tie_durations (Some 0) (Some 1)
       = Inr \<lparr>order = [0, 2, 3, 4, 8, 5, 6, 7, 1], total_cost = 8\<rparr>
   \<and> no_ties scenario_durations
   \<and> set_iteration descending_order [1, 2, 3] = [3, 2, 1]
   \<and> optimize_order_from_durations descending_order scenario_durations None None
       = optimize_order_from_durations index_order scenario_durations None None
   \<and> optimize_order_from_durations index_order scenario_durations None None
       = Inr \<lparr>order = [1, 0, 3, 2], total_cost = 60\<rparr>"
proof -
  note thm1 = tie_break_follows_iteration_order
    [of hash_slot_order tie_cost 0 "Some 1" tie_durations wide_slot_order "Some 0" "Some 1"]
  note thm2 = tie_break_follows_iteration_order
    [of descending_order scenario_cost 0 None scenario_durations index_order None None]
  have a: "nearest_neighbor_path hash_slot_order tie_cost 0 (Some 1)
             = Inr [0, 2, 3, 4, 8, 5, 6, 7, 1]" by code_simp
  have b: "candidates_at tie_cost 0 (Some 1) [0, 2, 3, 4, 8, 5, 6, 7, 1] 3 = [5, 6, 7, 8]"
    by code_simp
  have c: "set_iteration hash_slot_order [5, 6, 7, 8] = [] @ 8 # [5, 6, 7]" by code_simp
  have d: "\<exists>pre post. set_iteration hash_slot_order [5, 6, 7, 8] = pre @ 8 # post
         \<and> (\<forall>j \<in> set pre. tie_cost ! 4 ! 8 < tie_cost ! 4 ! j)
         \<and> (\<forall>j \<in> set post. tie_cost ! 4 ! 8 \<le> tie_cost ! 4 ! j)"
  proof -
    from thm1 a have "\<forall>i. Suc i < length [0, 2, 3, 4, 8, 5, 6, 7, 1::nat] \<longrightarrow>
            (\<exists>pre post.
               set_iteration hash_slot_order
                  (candidates_at tie_cost 0 (Some 1) [0, 2, 3, 4, 8, 5, 6, 7, 1] i)
                 = pre @ [0, 2, 3, 4, 8, 5, 6, 7, 1] ! Suc i # post
               \<and> (\<forall>j \<in> set pre. tie_cost ! ([0, 2, 3, 4, 8, 5, 6, 7, 1] ! i)
                       ! ([0, 2, 3, 4, 8, 5, 6, 7, 1] ! Suc i)
                     < tie_cost ! ([0, 2, 3, 4, 8, 5, 6, 7, 1] ! i) ! j)
               \<and> (\<forall>j \<in> set post. tie_cost ! ([0, 2, 3, 4, 8, 5, 6, 7, 1] ! i)
                       ! ([0, 2, 3, 4, 8, 5, 6, 7, 1] ! Suc i)
                     \<le> tie_cost ! ([0, 2, 3, 4, 8, 5, 6, 7, 1] ! i) ! j))"
      by simp
    from this [rule_format, of 3] show ?thesis unfolding b by (simp add: eval_nat_numeral)
  qed
  have e: "nearest_neighbor_path index_order tie_cost 0 (Some 1)
             = Inr [0, 2, 3, 4, 5, 6, 7, 8, 1]" by code_simp
  have f: "candidates_at tie_cost 0 (Some 1) [0, 2, 3, 4, 5, 6, 7, 8, 1] 3 = [5, 6, 7, 8]"
    by code_simp
  have g: "\<forall>j \<in> set [5, 6, 7, 8]. tie_cost ! 4 ! 5 \<le> tie_cost ! 4 ! j
         \<and> (tie_cost ! 4 ! j = tie_cost ! 4 ! 5 \<longrightarrow> 5 \<le> j)"
  proof -
    from thm1 e have "\<forall>i. Suc i < length [0, 2, 3, 4, 5, 6, 7, 8, 1::nat] \<longrightarrow>
            (\<forall>j \<in> set (candidates_at tie_cost 0 (Some 1) [0, 2, 3, 4, 5, 6, 7, 8, 1] i).
                  tie_cost ! ([0, 2, 3, 4, 5, 6, 7, 8, 1] ! i)
                      ! ([0, 2, 3, 4, 5, 6, 7, 8, 1] ! Suc i)
                    \<le> tie_cost ! ([0, 2, 3, 4, 5, 6, 7, 8, 1] ! i) ! j
                  \<and> (tie_cost ! ([0, 2, 3, 4, 5, 6, 7, 8, 1] ! i) ! j
                       = tie_cost ! ([0, 2, 3, 4, 5, 6, 7, 8, 1] ! i)
                           ! ([0, 2, 3, 4, 5, 6, 7, 8, 1] ! Suc i)
                       \<longrightarrow> [0, 2, 3, 4, 5, 6, 7, 8, 1] ! Suc i \<le> j))"
      by simp
    from this [rule_format, of 3] show ?thesis unfolding f by (simp add: eval_nat_numeral)
  qed
  have len: "length tie_cost = 9" by (simp add: tie_cost_def)
  have h: "0 < length tie_cost" by (simp add: len)
  have i: "choose_central_start tie_cost = 0" by code_simp
  have j: "\<forall>j < length tie_cost. row_sums tie_cost ! 0 \<le> row_sums tie_cost ! j"
    using thm1 h unfolding i by blast
  have k: "\<forall>members. set members \<subseteq> {0..<length tie_durations} \<longrightarrow>
         set_iteration hash_slot_order members = set_iteration wide_slot_order members"
  proof (intro allI impI)
    fix members :: "nat list"
    assume "set members \<subseteq> {0..<length tie_durations}"
    then have lt: "\<And>x. x \<in> set members \<Longrightarrow> x < 9" by (auto simp: tie_durations_def)
    show "set_iteration hash_slot_order members = set_iteration wide_slot_order members"
      unfolding set_iteration_def
      by (rule sort_key_agree) (auto simp: hash_slot_order_def wide_slot_order_def dest: lt)
  qed
  have g': "list_all (\<lambda>j. tie_cost ! 4 ! 5 \<le> tie_cost ! 4 ! j
                     \<and> (tie_cost ! 4 ! j = tie_cost ! 4 ! 5 \<longrightarrow> 5 \<le> j)) [5, 6, 7, 8]"
    using g unfolding list_all_iff .
  have j': "list_all (\<lambda>j. row_sums tie_cost ! 0 \<le> row_sums tie_cost ! j) [0..<length tie_cost]"
    using j unfolding list_all_iff by simp
  have k': "\<not> (\<exists>members. set members \<subseteq> {0..<length tie_durations}
           \<and> set_iteration hash_slot_order members \<noteq> set_iteration wide_slot_order members)"
    using k by blast
  have l: "hash_slot_order [0, 1, 2, 3, 4] 16 \<noteq> wide_slot_order [0, 1, 2, 3, 4] 16"
    by (simp add: hash_slot_order_def wide_slot_order_def)
  have m0: "optimize_order_from_durations hash_slot_order tie_durations (Some 0) (Some 1)
       = Inr \<lparr>order = [0, 2, 3, 4, 8, 5, 6, 7, 1], total_cost = 8\<rparr>" by code_simp
  have m: "optimize_order_from_durations wide_slot_order tie_durations (Some 0) (Some 1)
       = Inr \<lparr>order = [0, 2, 3, 4, 8, 5, 6, 7, 1], total_cost = 8\<rparr>"
    using thm1 k m0 by simp
  have n: "no_ties scenario_durations" by code_simp
  have n': "set_iteration descending_order [1, 2, 3] = [3, 2, 1]" by code_simp
  have o: "optimize_order_from_durations descending_order scenario_durations None None
       = optimize_order_from_durations index_order scenario_durations None None"
    using thm2 n by blast
  have p: "optimize_order_from_durations index_order scenario_durations None None
       = Inr \<lparr>order = [1, 0, 3, 2], total_cost = 60\<rparr>" by code_simp
  show ?thesis using a b c d e f g' h i j' k' l m n n' o p by (intro conjI)
qed

section \<open>Properties of the optimize operation\<close>

lemma hard_index_unusable:
  assumes "py_int x = None \<or> (\<exists>i. py_int x = Some i \<and> idx i = None)"
  shows "hard_index idx (Some x) = None"
  using assms by (auto simp: hard_index_def)

lemma optimize_trip_route_unfold:
  "optimize_trip_route layout similar trip rows osrm start_location_id end_location_id =
     route_with_anchors layout similar trip rows osrm
       (hard_index (id_to_index rows) start_location_id)
       (resolved_end (hard_index (id_to_index rows) start_location_id)
          (hard_index (id_to_index rows) end_location_id))"
  unfolding optimize_trip_route_def route_with_anchors_def resolved_end_def Let_def
  by (rule refl)

subsection \<open>Claim C9: a malformed or unknown anchor id is ignored\<close>

text \<open>
  Claim C9 says that a start or end anchor id that does not parse as an integer, or that
  is not the id of a selected stop, makes the operation fail with an invalid-input error.
  The operation succeeds on such ids: for the text \<open>abc\<close> and for the unknown id 999 it
  returns the route it returns without anchors.
\<close>

theorem invalid_anchor_rejected_counterexample:
  "py_int (StrId ''abc'') = None
   \<and> id_to_index example_rows 999 = None
   \<and> optimize_trip_route index_order no_similarity (Some example_trip) example_rows
         (Inr example_table) (Some (StrId ''abc'')) None
       = Inr \<lparr>optimized_order = [20, 10, 30], total_distance_km = 6,
               total_duration_min = 6, total_locations = 3\<rparr>
   \<and> optimize_trip_route index_order no_similarity (Some example_trip) example_rows
         (Inr example_table) (Some (IntId 999)) None
       = Inr \<lparr>optimized_order = [20, 10, 30], total_distance_km = 6,
               total_duration_min = 6, total_locations = 3\<rparr>
   \<and> optimize_trip_route index_order no_similarity (Some example_trip) example_rows
         (Inr example_table) None (Some (StrId ''abc''))
       = Inr \<lparr>optimized_order = [20, 10, 30], total_distance_km = 6,
               total_duration_min = 6, total_locations = 3\<rparr>"
proof -
  have a: "py_int (StrId ''abc'') = None" by code_simp
  have b: "id_to_index example_rows 999 = None" by code_simp
  have c: "optimize_trip_route index_order no_similarity (Some example_trip) example_rows
         (Inr example_table) (Some (StrId ''abc'')) None
       = Inr \<lparr>optimized_order = [20, 10, 30], total_distance_km = 6,
               total_duration_min = 6, total_locations = 3\<rparr>" by code_simp
  have d: "optimize_trip_route index_order no_similarity (Some example_trip) example_rows
         (Inr example_table) (Some (IntId 999)) None
       = Inr \<lparr>optimized_order = [20, 10, 30], total_distance_km = 6,
               total_duration_min = 6, total_locations = 3\<rparr>" by code_simp
  have e: "optimize_trip_route index_order no_similarity (Some example_trip) example_rows
         (Inr example_table) None (Some (StrId ''abc''))
       = Inr \<lparr>optimized_order = [20, 10, 30], total_distance_km = 6,
               total_duration_min = 6, total_locations = 3\<rparr>" by code_simp
  show ?thesis using a b c d e by simp
qed

text \<open>
  Claim C9 as amended. If the caller supplies a start or end anchor id that does not parse
  as an integer or does not identify a selected stop of the trip, the id is ignored: the
  anchor index is \<open>None\<close> and the operation returns what it returns when that id is not
  supplied.
\<close>

theorem unusable_anchor_ignored:
  assumes "py_int x = None \<or> (\<exists>i. py_int x = Some i \<and> id_to_index rows i = None)"
  shows "hard_index (id_to_index rows) (Some x) = None
       \<and> optimize_trip_route layout similar trip rows osrm (Some x) e
           = optimize_trip_route layout similar trip rows osrm None e
       \<and> optimize_trip_route layout similar trip rows osrm s (Some x)
           = optimize_trip_route layout similar trip rows osrm s None"
proof -
  have h: "hard_index (id_to_index rows) (Some x) = None"
    by (rule hard_index_unusable [OF assms])
  have n: "hard_index (id_to_index rows) None = None" by (simp add: hard_index_def)
  have "optimize_trip_route layout similar trip rows osrm (Some x) e
           = optimize_trip_route layout similar trip rows osrm None e"
    by (simp add: optimize_trip_route_unfold h n)
  moreover have "optimize_trip_route layout similar trip rows osrm s (Some x)
           = optimize_trip_route layout similar trip rows osrm s None"
    by (simp add: optimize_trip_route_unfold h n)
  ultimately show ?thesis using h by simp
qed

theorem unusable_anchor_ignored_witness:
  "py_int (IntId 999) = Some 999 \<and> id_to_index example_rows 999 = None
   \<and> hard_index (id_to_index example_rows) (Some (IntId 999)) = None
   \<and> optimize_trip_route index_order no_similarity (Some example_trip) example_rows
         (Inr example_table) (Some (IntId 30)) None
       = Inr \<lparr>optimized_order = [30, 20, 10], total_distance_km = 3,
               total_duration_min = 3, total_locations = 3\<rparr>
   \<and> optimize_trip_route index_order no_similarity (Some example_trip) example_rows
         (Inr example_table) (Some (IntId 30)) (Some (IntId 999))
       = Inr \<lparr>optimized_order = [30, 20, 10], total_distance_km = 3,
               total_duration_min = 3, total_locations = 3\<rparr>"
proof -
  have a: "py_int (IntId 999) = Some 999" by simp
  have b: "id_to_index example_rows 999 = None" by code_simp
  have c: "optimize_trip_route index_order no_similarity (Some example_trip) example_rows
         (Inr example_table) (Some (IntId 30)) None
       = Inr \<lparr>optimized_order = [30, 20, 10], total_distance_km = 3,
               total_duration_min = 3, total_locations = 3\<rparr>" by code_simp
  have h: "py_int (IntId 999) = None
             \<or> (\<exists>i. py_int (IntId 999) = Some i \<and> id_to_index example_rows i = None)"
    using a b by simp
  from unusable_anchor_ignored [OF h, where layout = index_order and similar = no_similarity
         and trip = "Some example_trip" and osrm = "Inr example_table"
         and s = "Some (IntId 30)"] c
  show ?thesis using a b by simp
qed

subsection \<open>Claim C10: an end anchor equal to the start anchor is dropped\<close>



section \<open>Properties of the day packing\<close>

declare pack_days.simps [simp del]

lemma pack_day_step:
  "pack_day pace_key seg_map (l # queue) prev day =
     (if day_closes pace_key seg_map prev day l then (day, l # queue, prev)
      else pack_day pace_key seg_map queue (Some (location_id l))
             (add_stop pace_key seg_map prev day l))"
  unfolding day_closes_def step_travel_def step_visit_def add_stop_def pack_day.simps Let_def
  by (rule refl)

lemma pack_day_close:
  "day_closes pace_key seg_map prev day l \<Longrightarrow>
     pack_day pace_key seg_map (l # queue) prev day = (day, l # queue, prev)"
  by (simp only: pack_day_step if_True)

lemma pack_day_add:
  "\<not> day_closes pace_key seg_map prev day l \<Longrightarrow>
     pack_day pace_key seg_map (l # queue) prev day
       = pack_day pace_key seg_map queue (Some (location_id l))
           (add_stop pace_key seg_map prev day l)"
  by (simp only: pack_day_step if_False)

lemma pack_day_count:
  "pack_day pace_key seg_map queue prev day = (day', rest, prev') \<Longrightarrow>
     length (current_day_locs day') + length rest = length (current_day_locs day) + length queue"
proof (induction queue arbitrary: prev day)
  case Nil
  then show ?case by simp
next
  case (Cons l queue)
  show ?case
  proof (cases "day_closes pace_key seg_map prev day l")
    case True
    with Cons.prems show ?thesis by (simp add: pack_day_close del: pack_day.simps)
  next
    case False
    from Cons.prems have "pack_day pace_key seg_map queue (Some (location_id l))
           (add_stop pace_key seg_map prev day l) = (day', rest, prev')"
      by (simp only: pack_day_add [OF False])
    from Cons.IH [OF this] show ?thesis by (simp add: add_stop_def)
  qed
qed

lemma pack_day_nonempty:
  "pack_day pace_key seg_map queue prev day = (day', rest, prev') \<Longrightarrow>
     current_day_locs day \<noteq> [] \<or> queue \<noteq> [] \<Longrightarrow> current_day_locs day' \<noteq> []"
proof (induction queue arbitrary: prev day)
  case Nil
  then show ?case by simp
next
  case (Cons l queue)
  show ?case
  proof (cases "day_closes pace_key seg_map prev day l")
    case True
    with Cons.prems(1) have "day' = day" by (simp add: pack_day_close del: pack_day.simps)
    with True show ?thesis by (simp add: day_closes_def)
  next
    case False
    from Cons.prems(1) have "pack_day pace_key seg_map queue (Some (location_id l))
           (add_stop pace_key seg_map prev day l) = (day', rest, prev')"
      by (simp only: pack_day_add [OF False])
    from Cons.IH [OF this] show ?thesis by (simp add: add_stop_def)
  qed
qed

lemma add_stop_within_ceiling:
  assumes "within_ceiling pace_key day" and "\<not> day_closes pace_key seg_map prev day l"
  shows "within_ceiling pace_key (add_stop pace_key seg_map prev day l)"
proof (cases "current_day_locs day = []")
  case True
  with assms(1) show ?thesis
    by (simp add: within_ceiling_def add_stop_def items_active_def)
next
  case False
  with assms(2) have "current_day_active day
        + (step_travel seg_map prev l + step_visit pace_key l)
      \<le> target_active_min pace_key + tolerance_min"
    by (simp add: day_closes_def)
  with assms(1) show ?thesis
    by (simp add: within_ceiling_def add_stop_def items_active_def)
qed

lemma pack_day_within_ceiling:
  "pack_day pace_key seg_map queue prev day = (day', rest, prev') \<Longrightarrow>
     within_ceiling pace_key day \<Longrightarrow> within_ceiling pace_key day'"
proof (induction queue arbitrary: prev day)
  case Nil
  then show ?case by simp
next
  case (Cons l queue)
  show ?case
  proof (cases "day_closes pace_key seg_map prev day l")
    case True
    with Cons.prems show ?thesis by (simp add: pack_day_close del: pack_day.simps)
  next
    case False
    from Cons.prems(1) have rec: "pack_day pace_key seg_map queue (Some (location_id l))
           (add_stop pace_key seg_map prev day l) = (day', rest, prev')"
      by (simp only: pack_day_add [OF False])
    from Cons.IH [OF rec add_stop_within_ceiling [OF Cons.prems(2) False]] show ?thesis .
  qed
qed

lemma empty_day_within_ceiling: "within_ceiling pace_key empty_day"
  by (simp add: within_ceiling_def empty_day_def items_active_def)

lemma pack_days_count:
  "sum_list (map (\<lambda>d. length (current_day_locs d)) (pack_days pace_key seg_map queue prev days))
     = sum_list (map (\<lambda>d. length (current_day_locs d)) days) + length queue"
proof (induction pace_key seg_map queue prev days rule: pack_days.induct)
  case (1 pace_key seg_map queue prev days)
  show ?case
  proof (cases "queue = []")
    case True
    then show ?thesis by (subst pack_days.simps) simp
  next
    case False
    obtain day rest prev' where p: "pack_day pace_key seg_map queue prev empty_day = (day, rest, prev')"
      by (cases "pack_day pace_key seg_map queue prev empty_day") auto
    have c: "length (current_day_locs day) + length rest = length queue"
      using pack_day_count [OF p] by (simp add: empty_day_def)
    have ne: "current_day_locs day \<noteq> []" using pack_day_nonempty [OF p] False by simp
    have "pack_days pace_key seg_map queue prev days
            = pack_days pace_key seg_map rest prev' (days @ [day])"
      using False p ne by (subst pack_days.simps) simp
    moreover have "sum_list (map (\<lambda>d. length (current_day_locs d))
                      (pack_days pace_key seg_map rest prev' (days @ [day])))
        = sum_list (map (\<lambda>d. length (current_day_locs d)) (days @ [day])) + length rest"
      using "1.IH" [OF False p [symmetric] refl] ne by simp
    ultimately show ?thesis using c by simp
  qed
qed

lemma pack_days_invariant:
  assumes "\<forall>d \<in> set days. current_day_locs d \<noteq> [] \<and> within_ceiling pace_key d"
  shows "\<forall>d \<in> set (pack_days pace_key seg_map queue prev days).
           current_day_locs d \<noteq> [] \<and> within_ceiling pace_key d"
  using assms
proof (induction pace_key seg_map queue prev days rule: pack_days.induct)
  case (1 pace_key seg_map queue prev days)
  show ?case
  proof (cases "queue = []")
    case True
    then show ?thesis using "1.prems" by (subst pack_days.simps) simp
  next
    case False
    obtain day rest prev' where p: "pack_day pace_key seg_map queue prev empty_day = (day, rest, prev')"
      by (cases "pack_day pace_key seg_map queue prev empty_day") auto
    have ne: "current_day_locs day \<noteq> []" using pack_day_nonempty [OF p] False by simp
    have w: "within_ceiling pace_key day"
      by (rule pack_day_within_ceiling [OF p empty_day_within_ceiling])
    have eq: "pack_days pace_key seg_map queue prev days
            = pack_days pace_key seg_map rest prev' (days @ [day])"
      using False p ne by (subst pack_days.simps) simp
    have "\<forall>d \<in> set (if current_day_locs day \<noteq> [] then days @ [day] else days).
             current_day_locs d \<noteq> [] \<and> within_ceiling pace_key d"
      using "1.prems" ne w by simp
    from "1.IH" [OF False p [symmetric] refl this]
    have "\<forall>d \<in> set (pack_days pace_key seg_map rest prev' (days @ [day])).
           current_day_locs d \<noteq> [] \<and> within_ceiling pace_key d"
      using ne by simp
    then show ?thesis by (simp only: eq)
  qed
qed

lemma stretch_day_length:
  "length (current_day_locs (stretch_day pace_key day)) = length (current_day_locs day)"
  by (simp add: stretch_day_def Let_def)

lemma day_payload_length:
  "length (locations (day_payload number day)) = length (current_day_locs day)"
  by (simp add: day_payload_def)

lemma day_payloads_counts:
  "map (\<lambda>d. length (locations d)) (day_payloads pace_key number days)
     = map (\<lambda>d. length (current_day_locs d)) days"
  by (induction days arbitrary: number) (simp_all add: day_payload_length stretch_day_length)

lemma locations_recalculate: "locations (recalculate day locs) = locs"
  by (simp add: recalculate_def Let_def)

lemma two_last:
  assumes "2 \<le> length xs"
  shows "xs = butlast (butlast xs) @ [last (butlast xs), last xs]"
proof -
  from assms have a: "xs \<noteq> []" by auto
  from assms have b: "butlast xs \<noteq> []" by (cases xs) (auto simp: Suc_le_eq)
  have "xs = butlast xs @ [last xs]" using a by simp
  also have "butlast xs = butlast (butlast xs) @ [last (butlast xs)]" using b by simp
  finally show ?thesis by simp
qed

lemma equalize_counts:
  "sum_list (map (\<lambda>d. length (locations d)) (equalize pace_key days))
     = sum_list (map (\<lambda>d. length (locations d)) days)"
proof (cases "2 \<le> length days \<and> length (locations (last days)) = 1
                \<and> length (locations (last (butlast days))) > 2
                \<and> active_min (last days) < target_active_min pace_key * (1 / 2)")
  case False
  then show ?thesis by (auto simp: equalize_def Let_def)
next
  case True
  define front where "front = butlast (butlast days)"
  define prev where "prev = last (butlast days)"
  define lst where "lst = last days"
  have d: "days = front @ [prev, lst]"
    using two_last [of days] True by (simp add: front_def prev_def lst_def)
  have e: "equalize pace_key days
             = front @ [recalculate prev (butlast (locations prev)),
                        recalculate lst (last (locations prev) # locations lst)]"
    using True by (simp add: equalize_def Let_def front_def prev_def lst_def)
  have "length (locations prev) > 2" using True by (simp add: prev_def)
  then have "length (butlast (locations prev)) + length (last (locations prev) # locations lst)
               = length (locations prev) + length (locations lst)" by simp
  then have "sum_list (map (\<lambda>d. length (locations d))
               (front @ [recalculate prev (butlast (locations prev)),
                         recalculate lst (last (locations prev) # locations lst)]))
           = sum_list (map (\<lambda>d. length (locations d)) (front @ [prev, lst]))"
    by (simp add: locations_recalculate)
  then show ?thesis by (simp only: e) (simp only: d [symmetric])
qed

lemma equalize_nonempty:
  assumes "\<forall>d \<in> set days. locations d \<noteq> []"
  shows "\<forall>d \<in> set (equalize pace_key days). locations d \<noteq> []"
proof (cases "2 \<le> length days \<and> length (locations (last days)) = 1
                \<and> length (locations (last (butlast days))) > 2
                \<and> active_min (last days) < target_active_min pace_key * (1 / 2)")
  case False
  then show ?thesis using assms by (auto simp: equalize_def Let_def)
next
  case True
  define front where "front = butlast (butlast days)"
  define prev where "prev = last (butlast days)"
  define lst where "lst = last days"
  have d: "days = front @ [prev, lst]"
    using two_last [of days] True by (simp add: front_def prev_def lst_def)
  have e: "equalize pace_key days
             = front @ [recalculate prev (butlast (locations prev)),
                        recalculate lst (last (locations prev) # locations lst)]"
    using True by (simp add: equalize_def Let_def front_def prev_def lst_def)
  have "length (locations prev) > 2" using True by (simp add: prev_def)
  then have "butlast (locations prev) \<noteq> []" by (cases "locations prev") auto
  moreover have "\<forall>d \<in> set front. locations d \<noteq> []" using assms d by (metis Un_iff set_append)
  ultimately show ?thesis by (simp add: e locations_recalculate)
qed

lemma itinerary_unfold:
  "build_trip_itinerary pace seg_map all_locs
     = equalize (pace_key_of pace)
         (day_payloads (pace_key_of pace) 1 (pack_days (pace_key_of pace) seg_map all_locs None []))"
proof (cases "all_locs = []")
  case True
  have "pack_days (pace_key_of pace) seg_map [] None [] = []" by (subst pack_days.simps) simp
  with True show ?thesis by (simp add: build_trip_itinerary_def equalize_def)
next
  case False
  then show ?thesis by (simp add: build_trip_itinerary_def Let_def)
qed

subsection \<open>Claim C7: stop counts, non-empty days and the ceiling on active time\<close>

text \<open>
  Claim C7 says that no day's active time at packing time (travel plus visit minutes, before
  stretching) exceeds the target plus the tolerance, except by the equalization move. The
  first stop of a day is placed without the test, with the travel from the last stop of the
  previous day: with two stops 1000 minutes apart at balanced pace the second day has one
  stop and 1075 active minutes against a ceiling of 525, and no equalization move is made.
\<close>

theorem single_stop_day_exceeds_ceiling_counterexample:
  "map current_day_active
      (pack_days (pace_key_of (Some ''balanced'')) far_apart [example_row 10, example_row 20]
         None []) = [75, 1075]
   \<and> map (\<lambda>d. length (current_day_locs d))
      (pack_days (pace_key_of (Some ''balanced'')) far_apart [example_row 10, example_row 20]
         None []) = [1, 1]
   \<and> target_active_min (pace_key_of (Some ''balanced'')) + tolerance_min = 525
   \<and> (525::real) < 1075
   \<and> map (\<lambda>d. length (locations d))
        (build_trip_itinerary (Some ''balanced'') far_apart [example_row 10, example_row 20])
       = [1, 1]"
proof -
  have a: "map current_day_active
      (pack_days (pace_key_of (Some ''balanced'')) far_apart [example_row 10, example_row 20]
         None []) = [75, 1075]" by code_simp
  have b: "map (\<lambda>d. length (current_day_locs d))
      (pack_days (pace_key_of (Some ''balanced'')) far_apart [example_row 10, example_row 20]
         None []) = [1, 1]" by code_simp
  have c: "target_active_min (pace_key_of (Some ''balanced'')) + tolerance_min = 525"
    by code_simp
  have d: "map (\<lambda>d. length (locations d))
        (build_trip_itinerary (Some ''balanced'') far_apart [example_row 10, example_row 20])
       = [1, 1]" by code_simp
  show ?thesis using a b c d by simp
qed

text \<open>
  Claim C7 as amended. For every ordered list of stops, the stop counts of the days of the
  itinerary add up to the number of stops, every day has at least one stop, and every day
  packed with two or more stops has an active time at packing time (the sum of the travel
  and visit minutes of its stops, before stretching) of at most the target plus the
  tolerance. A day packed with a single stop is not bounded.
\<close>

theorem day_packing_invariants:
  "sum_list (map (\<lambda>d. length (locations d)) (build_trip_itinerary pace seg_map all_locs))
     = length all_locs
   \<and> (\<forall>d \<in> set (build_trip_itinerary pace seg_map all_locs). locations d \<noteq> [])
   \<and> (\<forall>day \<in> set (pack_days (pace_key_of pace) seg_map all_locs None []).
         current_day_locs day \<noteq> []
       \<and> current_day_active day
           = sum_list (map (\<lambda>item. travel item + visit item) (current_day_locs day))
       \<and> (2 \<le> length (current_day_locs day) \<longrightarrow>
            current_day_active day \<le> target_active_min (pace_key_of pace) + tolerance_min))"
proof (intro conjI)
  define pk where "pk = pace_key_of pace"
  define packed where "packed = pack_days pk seg_map all_locs None []"
  have u: "build_trip_itinerary pace seg_map all_locs = equalize pk (day_payloads pk 1 packed)"
    by (simp add: itinerary_unfold pk_def packed_def)
  have c: "sum_list (map (\<lambda>d. length (current_day_locs d)) packed) = length all_locs"
    using pack_days_count [of pk seg_map all_locs None "[]"] by (simp add: packed_def)
  show "sum_list (map (\<lambda>d. length (locations d)) (build_trip_itinerary pace seg_map all_locs))
          = length all_locs"
    by (simp only: u equalize_counts day_payloads_counts c)
  have inv: "\<forall>d \<in> set packed. current_day_locs d \<noteq> [] \<and> within_ceiling pk d"
    unfolding packed_def by (rule pack_days_invariant) simp
  have "\<forall>n \<in> set (map (\<lambda>d. length (locations d)) (day_payloads pk 1 packed)). n \<noteq> 0"
    using inv by (simp only: day_payloads_counts) auto
  then have "\<forall>d \<in> set (day_payloads pk 1 packed). locations d \<noteq> []" by auto
  from equalize_nonempty [OF this]
  show "\<forall>d \<in> set (build_trip_itinerary pace seg_map all_locs). locations d \<noteq> []"
    by (simp only: u)
  show "\<forall>day \<in> set (pack_days (pace_key_of pace) seg_map all_locs None []).
         current_day_locs day \<noteq> []
       \<and> current_day_active day
           = sum_list (map (\<lambda>item. travel item + visit item) (current_day_locs day))
       \<and> (2 \<le> length (current_day_locs day) \<longrightarrow>
            current_day_active day \<le> target_active_min (pace_key_of pace) + tolerance_min)"
    using inv unfolding packed_def pk_def within_ceiling_def items_active_def by auto
qed

theorem day_packing_invariants_witness:
  "map (\<lambda>d. length (current_day_locs d))
      (pack_days (pace_key_of (Some ''Relaxed'')) no_segments (map heritage_row [1, 2, 3, 4])
         None []) = [3, 1]
   \<and> map current_day_active
      (pack_days (pace_key_of (Some ''Relaxed'')) no_segments (map heritage_row [1, 2, 3, 4])
         None []) = [309, 103]
   \<and> target_active_min (pace_key_of (Some ''Relaxed'')) + tolerance_min = 405
   \<and> map (\<lambda>d. length (locations d))
        (build_trip_itinerary (Some ''Relaxed'') no_segments (map heritage_row [1, 2, 3, 4]))
       = [2, 2]
   \<and> sum_list (map (\<lambda>d. length (locations d))
        (build_trip_itinerary (Some ''Relaxed'') no_segments (map heritage_row [1, 2, 3, 4])))
       = length (map heritage_row [1, 2, 3, 4])"
proof -
  have a: "map (\<lambda>d. length (current_day_locs d))
      (pack_days (pace_key_of (Some ''Relaxed'')) no_segments (map heritage_row [1, 2, 3, 4])
         None []) = [3, 1]" by code_simp
  have b: "map current_day_active
      (pack_days (pace_key_of (Some ''Relaxed'')) no_segments (map heritage_row [1, 2, 3, 4])
         None []) = [309, 103]" by code_simp
  have c: "target_active_min (pace_key_of (Some ''Relaxed'')) + tolerance_min = 405"
    by code_simp
  have d: "map (\<lambda>d. length (locations d))
        (build_trip_itinerary (Some ''Relaxed'') no_segments (map heritage_row [1, 2, 3, 4]))
       = [2, 2]" by code_simp
  from day_packing_invariants [of "Some ''Relaxed''" no_segments "map heritage_row [1, 2, 3, 4]"]
  have "sum_list (map (\<lambda>d. length (locations d))
        (build_trip_itinerary (Some ''Relaxed'') no_segments (map heritage_row [1, 2, 3, 4])))
       = length (map heritage_row [1, 2, 3, 4])" by blast
  with a b c d show ?thesis by simp
qed

end
